theory Spec2Isabelle
  imports Main "HOL-Library.Sublist"
begin

section \<open>The rendered document\<close>

text \<open>
  The viewer component (\<^verbatim>\<open>Viewer\<close>, a React component) keeps all of its visual state in the
  DOM below the article element \<^verbatim>\<open>containerRef.current\<close>. The model is a tree of text
  nodes and elements. An element carries the attributes the component reads or
  writes: the tag name, the class list, \<^verbatim>\<open>data-block-id\<close> (set by the block renderers),
  \<^verbatim>\<open>data-bind-id\<close> (set on the marks the component wraps by hand) and
  \<^verbatim>\<open>data-highlight-id\<close> (set by the web-highlighter library on the marks it wraps for
  a user selection). A string is a list of characters; one character stands for one
  UTF-16 code unit of the JavaScript string, which is what \<^verbatim>\<open>length\<close>, \<^verbatim>\<open>indexOf\<close> and
  the offsets of a range count.
\<close>

record attrs =
  tagName :: string
  classList :: "string list"
  dataBlockId :: "string option"
  dataBindId :: "string option"
  dataHighlightId :: "string option"

datatype node = TextNode string | Element attrs "node list"

text \<open>\<^verbatim>\<open>textContent\<close> of a list of sibling nodes: the text of all text nodes below them,
  in document order.\<close>

fun textContent :: "node list \<Rightarrow> string" where
  "textContent [] = []"
| "textContent (TextNode t # ns) = t @ textContent ns"
| "textContent (Element a ch # ns) = textContent ch @ textContent ns"

text \<open>The text nodes a \<^verbatim>\<open>TreeWalker\<close> with \<^verbatim>\<open>NodeFilter.SHOW_TEXT\<close> visits, in its order
  (document order).\<close>

fun textNodes :: "node list \<Rightarrow> string list" where
  "textNodes [] = []"
| "textNodes (TextNode t # ns) = t # textNodes ns"
| "textNodes (Element a ch # ns) = textNodes ch @ textNodes ns"

section \<open>Locating a captured text: \<^verbatim>\<open>findTextInDOM\<close>\<close>

text \<open>\<^verbatim>\<open>String.prototype.indexOf\<close>: the least position at which the search string starts,
  \<open>None\<close> for the result \<^verbatim>\<open>-1\<close>.\<close>

fun indexOf :: "string \<Rightarrow> string \<Rightarrow> nat option" where
  "indexOf [] s = (if s = [] then Some 0 else None)"
| "indexOf (c # cs) s =
     (if prefix s (c # cs) then Some 0 else map_option Suc (indexOf cs s))"

text \<open>A range with both boundary points in text nodes. A text node is named by its
  position in the walker's order.\<close>

record range =
  startNode :: nat
  startOff :: nat
  endNode :: nat
  endOff :: nat

text \<open>The first loop of \<^verbatim>\<open>findTextInDOM\<close>: the first text node that holds the whole
  search text; \<open>k\<close> counts the nodes the walker has passed.\<close>

fun walker_loop :: "string list \<Rightarrow> string \<Rightarrow> nat \<Rightarrow> range option" where
  "walker_loop [] searchText k = None"
| "walker_loop (t # ts) searchText k =
     (case indexOf t searchText of
        Some i \<Rightarrow>
          Some \<lparr>startNode = k, startOff = i, endNode = k, endOff = i + length searchText\<rparr>
      | None \<Rightarrow> walker_loop ts searchText (Suc k))"

text \<open>The second loop: \<open>charCount\<close> is the running offset, \<open>st\<close> is
  \<^verbatim>\<open>(startNode, startOffset)\<close> once the start has been found. The loop ends without a
  result (\<^verbatim>\<open>endNode\<close> stays null) when the walker runs out of nodes.\<close>

fun walker2_loop ::
  "string list \<Rightarrow> nat \<Rightarrow> nat \<Rightarrow> nat \<Rightarrow> nat \<Rightarrow> (nat \<times> nat) option \<Rightarrow> range option" where
  "walker2_loop [] searchIndex n charCount k st = None"
| "walker2_loop (t # ts) searchIndex n charCount k st =
     (let nodeLength = length t;
          st' = (case st of
                   None \<Rightarrow>
                     if charCount + nodeLength > searchIndex
                     then Some (k, searchIndex - charCount) else None
                 | Some x \<Rightarrow> Some x)
      in case st' of
           Some (sn, so) \<Rightarrow>
             if charCount + nodeLength \<ge> searchIndex + n
             then Some \<lparr>startNode = sn, startOff = so, endNode = k,
                        endOff = searchIndex + n - charCount\<rparr>
             else walker2_loop ts searchIndex n (charCount + nodeLength) (Suc k) st'
         | None \<Rightarrow> walker2_loop ts searchIndex n (charCount + nodeLength) (Suc k) st')"

text \<open>\<^verbatim>\<open>findTextInDOM(searchText)\<close>. The container is \<open>None\<close> when
  \<^verbatim>\<open>containerRef.current\<close> is null; \<open>hasSelection\<close> says whether
  \<^verbatim>\<open>window.getSelection()\<close> returns an object (the function gives up before the second walk
  when it does not). \<open>None\<close> is the result \<^verbatim>\<open>null\<close>.\<close>

definition findTextInDOM :: "node list option \<Rightarrow> bool \<Rightarrow> string \<Rightarrow> range option" where
  "findTextInDOM container hasSelection searchText =
     (case container of
        None \<Rightarrow> None
      | Some root \<Rightarrow>
          (case walker_loop (textNodes root) searchText 0 of
             Some r \<Rightarrow> Some r
           | None \<Rightarrow>
               (case indexOf (textContent root) searchText of
                  None \<Rightarrow> None
                | Some searchIndex \<Rightarrow>
                    if \<not> hasSelection then None
                    else walker2_loop (textNodes root) searchIndex (length searchText) 0 0 None)))"

text \<open>The position of a boundary point in the flattened text, and the text a range
  covers (\<^verbatim>\<open>Range.toString()\<close>): the slice of the flattened text between its boundary
  points.\<close>

definition absPos :: "string list \<Rightarrow> nat \<Rightarrow> nat \<Rightarrow> nat" where
  "absPos ts k off = length (concat (take k ts)) + off"

definition rangeText :: "string list \<Rightarrow> range \<Rightarrow> string" where
  "rangeText ts r =
     (let a = absPos ts (startNode r) (startOff r);
          b = absPos ts (endNode r) (endOff r)
      in take (b - a) (drop a (concat ts)))"

text \<open>The search text occurs in a text at position \<open>i\<close>.\<close>

definition occursAt :: "string \<Rightarrow> string \<Rightarrow> nat \<Rightarrow> bool" where
  "occursAt s t i \<longleftrightarrow> i + length s \<le> length t \<and> take (length s) (drop i t) = s"

text \<open>A range as the DOM keeps it: the start is not after the end, and each offset lies
  within its text node.\<close>

definition validRange :: "string list \<Rightarrow> range \<Rightarrow> bool" where
  "validRange ts r \<longleftrightarrow>
     startNode r \<le> endNode r \<and> endNode r < length ts \<and>
     startOff r \<le> length (ts ! startNode r) \<and> endOff r \<le> length (ts ! endNode r) \<and>
     (startNode r = endNode r \<longrightarrow> startOff r \<le> endOff r)"


section \<open>Wrapping a range in a mark\<close>

text \<open>
  The range operations are the browser's. They are modelled after the algorithms of the
  DOM Standard, for a range whose boundary points lie in text nodes, which is all
  \<^verbatim>\<open>findTextInDOM\<close> produces. A boundary point is given as the position \<open>k\<close> of its text
  node among the text nodes below the sibling list at hand, and the offset in it.

  \<open>splitAt k off ns\<close> divides the siblings \<open>ns\<close> at a boundary point: the nodes before
  the point and the nodes after it. The text node of the point is cut at the offset, and
  an element on the way down to it stands on both sides, with its children before the
  point on the left and the others on the right. This is what the extraction does with a
  partially contained node: the node is cloned, one side of its content stays in the
  original and the other side goes to the clone.
\<close>

fun splitAt :: "nat \<Rightarrow> nat \<Rightarrow> node list \<Rightarrow> node list \<times> node list" where
  "splitAt k off [] = ([], [])"
| "splitAt k off (TextNode t # ns) =
     (if k = 0 then ([TextNode (take off t)], TextNode (drop off t) # ns)
      else (case splitAt (k - 1) off ns of (l, r) \<Rightarrow> (TextNode t # l, r)))"
| "splitAt k off (Element a ch # ns) =
     (if k < length (textNodes ch)
      then (case splitAt k off ch of (l, r) \<Rightarrow> ([Element a l], Element a r # ns))
      else (case splitAt (k - length (textNodes ch)) off ns of
              (l, r) \<Rightarrow> (Element a ch # l, r)))"

text \<open>A position in the tree: the path of child indices from the container to a node,
  and an offset in that node (a child index in an element, a character offset in a text
  node). The empty path is the node whose children are the sibling list at hand.\<close>

type_synonym position = "nat list \<times> nat"

fun shiftPos :: "position \<Rightarrow> position" where
  "shiftPos ([], off) = ([], Suc off)"
| "shiftPos (i # p, off) = (Suc i # p, off)"

text \<open>\<^verbatim>\<open>Range.extractContents()\<close>: the fragment, the siblings that remain, and the point
  the range collapses to. When both boundary points lie in one text node the text between
  them is cut out of it. Otherwise the common ancestor is the node where the two points
  part into different children: the child with the start keeps what lies before the
  start, the child with the end keeps what lies after the end, and the fragment gets the
  other halves with all children in between; the range collapses to the point right
  after the child with the start.\<close>

fun extractContents ::
  "nat \<Rightarrow> nat \<Rightarrow> nat \<Rightarrow> nat \<Rightarrow> node list \<Rightarrow> node list \<times> node list \<times> position" where
  "extractContents ks os ke oe [] = ([], [], ([], 0))"
| "extractContents ks os ke oe (TextNode t # ns) =
     (if ks = 0 then
        (if ke = 0
         then ([TextNode (take (oe - os) (drop os t))],
               TextNode (take os t @ drop oe t) # ns, ([0], os))
         else (case splitAt (ke - 1) oe ns of
                 (l, r) \<Rightarrow> (TextNode (drop os t) # l, TextNode (take os t) # r, ([], 1))))
      else (case extractContents (ks - 1) os (ke - 1) oe ns of
              (frag, rest, pos) \<Rightarrow> (frag, TextNode t # rest, shiftPos pos)))"
| "extractContents ks os ke oe (Element a ch # ns) =
     (if length (textNodes ch) \<le> ks
      then (case extractContents (ks - length (textNodes ch)) os
                   (ke - length (textNodes ch)) oe ns of
              (frag, rest, pos) \<Rightarrow> (frag, Element a ch # rest, shiftPos pos))
      else if ke < length (textNodes ch)
      then (case extractContents ks os ke oe ch of
              (frag, ch', (p, off)) \<Rightarrow> (frag, Element a ch' # ns, (0 # p, off)))
      else (case splitAt ks os ch of
              (fl, fr) \<Rightarrow>
                (case splitAt (ke - length (textNodes ch)) oe ns of
                   (l, r) \<Rightarrow> (Element a fr # l, Element a fl # r, ([], 1)))))"

text \<open>\<^verbatim>\<open>Range.insertNode(node)\<close> for a collapsed range: a text node at the point is split
  at the offset and the node goes between the halves; in an element the node goes before
  the child at the offset.\<close>

fun insertNode :: "node \<Rightarrow> nat list \<Rightarrow> nat \<Rightarrow> node list \<Rightarrow> node list" where
  "insertNode n [] off ns = take off ns @ n # drop off ns"
| "insertNode n (i # p) off [] = []"
| "insertNode n (0 # p) off (TextNode t # ns) =
     TextNode (take off t) # n # TextNode (drop off t) # ns"
| "insertNode n (0 # p) off (Element a ch # ns) = Element a (insertNode n p off ch) # ns"
| "insertNode n (Suc i # p) off (x # ns) = x # insertNode n (i # p) off ns"

text \<open>Whether the range partially contains a node that is not a text node: the two
  boundary points lie in different text nodes that are not siblings. \<open>underElement k ns\<close>
  says that the \<open>k\<close>-th text node below the siblings \<open>ns\<close> is not one of them.\<close>

fun underElement :: "nat \<Rightarrow> node list \<Rightarrow> bool" where
  "underElement k [] = False"
| "underElement k (TextNode t # ns) = (if k = 0 then False else underElement (k - 1) ns)"
| "underElement k (Element a ch # ns) =
     (if k < length (textNodes ch) then True
      else underElement (k - length (textNodes ch)) ns)"

fun partiallyContainsElement :: "nat \<Rightarrow> nat \<Rightarrow> node list \<Rightarrow> bool" where
  "partiallyContainsElement ks ke [] = False"
| "partiallyContainsElement ks ke (TextNode t # ns) =
     (if ks = 0 then (if ke = 0 then False else underElement (ke - 1) ns)
      else partiallyContainsElement (ks - 1) (ke - 1) ns)"
| "partiallyContainsElement ks ke (Element a ch # ns) =
     (if length (textNodes ch) \<le> ks
      then partiallyContainsElement (ks - length (textNodes ch)) (ke - length (textNodes ch)) ns
      else if ke < length (textNodes ch) then partiallyContainsElement ks ke ch
      else True)"

text \<open>The two ways the component wraps a range. \<open>extractAndInsert\<close> is the catch branch:
  \<^verbatim>\<open>extractContents\<close>, \<^verbatim>\<open>wrapper.appendChild(fragment)\<close>, \<^verbatim>\<open>insertNode(wrapper)\<close>.
  \<^verbatim>\<open>Range.surroundContents(wrapper)\<close> throws \<^verbatim>\<open>InvalidStateError\<close> (\<open>None\<close>) when the range
  partially contains a node that is not a text node, and otherwise does the same three
  steps itself.\<close>

definition extractAndInsert :: "attrs \<Rightarrow> range \<Rightarrow> node list \<Rightarrow> node list" where
  "extractAndInsert wrapper r root =
     (case extractContents (startNode r) (startOff r) (endNode r) (endOff r) root of
        (fragment, rest, (p, off)) \<Rightarrow> insertNode (Element wrapper fragment) p off rest)"

definition surroundContents :: "attrs \<Rightarrow> range \<Rightarrow> node list \<Rightarrow> node list option" where
  "surroundContents wrapper r root =
     (if partiallyContainsElement (startNode r) (endNode r) root then None
      else Some (extractAndInsert wrapper r root))"

definition wrapRange :: "attrs \<Rightarrow> range \<Rightarrow> node list \<Rightarrow> node list" where
  "wrapRange wrapper r root =
     (case surroundContents wrapper r root of
        Some root' \<Rightarrow> root'
      | None \<Rightarrow> extractAndInsert wrapper r root)"

section \<open>Marks: queries, unwrapping, classes\<close>

text \<open>\<^verbatim>\<open>querySelectorAll\<close> for a selector that looks at one element's attributes: the
  matching elements below the siblings, in document order (an element before its
  descendants). Elements have no identity in the model; a match is given by its
  attributes.\<close>

fun querySelectorAll :: "(attrs \<Rightarrow> bool) \<Rightarrow> node list \<Rightarrow> attrs list" where
  "querySelectorAll P [] = []"
| "querySelectorAll P (TextNode t # ns) = querySelectorAll P ns"
| "querySelectorAll P (Element a ch # ns) =
     (if P a then [a] else []) @ querySelectorAll P ch @ querySelectorAll P ns"

text \<open>The selectors the component uses: \<^verbatim>\<open>[data-bind-id="id"]\<close>, \<^verbatim>\<open>[data-bind-id]\<close>,
  \<^verbatim>\<open>.annotation-highlight\<close>, \<^verbatim>\<open>code\<close>, and the library's own lookup of the marks of a
  highlight by \<^verbatim>\<open>data-highlight-id\<close>.\<close>

definition hasBindId :: "string \<Rightarrow> attrs \<Rightarrow> bool" where
  "hasBindId i a \<longleftrightarrow> dataBindId a = Some i"


definition hasClass :: "string \<Rightarrow> attrs \<Rightarrow> bool" where
  "hasClass c a \<longleftrightarrow> c \<in> set (classList a)"


definition hasHighlightId :: "string \<Rightarrow> attrs \<Rightarrow> bool" where
  "hasHighlightId i a \<longleftrightarrow> dataHighlightId a = Some i"

text \<open>\<^verbatim>\<open>highlighter.getDoms(id)\<close> of the web-highlighter library: the marks that the
  library wrapped for the highlight \<open>id\<close>.\<close>

definition getDoms :: "string \<Rightarrow> node list \<Rightarrow> attrs list" where
  "getDoms i root = querySelectorAll (hasHighlightId i) root"

text \<open>Unwrapping one mark, as the component does it: every child of the mark is moved in
  front of the mark, then the mark is removed. \<open>unwrapFirst P\<close> does this to the first
  element in document order that matches \<open>P\<close> (\<open>None\<close> when there is no match).
  \<open>unwrapEach P\<close> is \<^verbatim>\<open>querySelectorAll(...).forEach(unwrap)\<close>: the list of matches is taken
  once, and when its \<open>n\<close>-th element is unwrapped the earlier ones are gone already, so it
  is the first match that is left.\<close>

fun unwrapFirst :: "(attrs \<Rightarrow> bool) \<Rightarrow> node list \<Rightarrow> node list option" where
  "unwrapFirst P [] = None"
| "unwrapFirst P (TextNode t # ns) = map_option ((#) (TextNode t)) (unwrapFirst P ns)"
| "unwrapFirst P (Element a ch # ns) =
     (if P a then Some (ch @ ns)
      else (case unwrapFirst P ch of
              Some ch' \<Rightarrow> Some (Element a ch' # ns)
            | None \<Rightarrow> map_option ((#) (Element a ch)) (unwrapFirst P ns)))"

definition unwrapOne :: "(attrs \<Rightarrow> bool) \<Rightarrow> node list \<Rightarrow> node list" where
  "unwrapOne P root = (case unwrapFirst P root of Some root' \<Rightarrow> root' | None \<Rightarrow> root)"

definition unwrapEach :: "(attrs \<Rightarrow> bool) \<Rightarrow> node list \<Rightarrow> node list" where
  "unwrapEach P root = (unwrapOne P ^^ length (querySelectorAll P root)) root"

text \<open>\<^verbatim>\<open>highlighter.remove(id)\<close> and \<^verbatim>\<open>highlighter.addClass(className, id)\<close> of the library,
  by their documented effect: the first removes the marks of the highlight and leaves
  their content in place, the second adds a class to each of its marks.\<close>

definition highlighterRemove :: "string \<Rightarrow> node list \<Rightarrow> node list" where
  "highlighterRemove i root = unwrapEach (hasHighlightId i) root"

definition classListAdd :: "string \<Rightarrow> attrs \<Rightarrow> attrs" where
  "classListAdd c a = (if c \<in> set (classList a) then a else a\<lparr>classList := classList a @ [c]\<rparr>)"

fun addClass :: "string \<Rightarrow> string \<Rightarrow> node list \<Rightarrow> node list" where
  "addClass c i [] = []"
| "addClass c i (TextNode t # ns) = TextNode t # addClass c i ns"
| "addClass c i (Element a ch # ns) =
     Element (if hasHighlightId i a then classListAdd c a else a) (addClass c i ch)
       # addClass c i ns"

section \<open>Annotations\<close>

text \<open>The identity store (\<^verbatim>\<open>utils/identity\<close>): \<^verbatim>\<open>localStorage\<close> may be unavailable, in which
  case reading and writing throw and the functions carry on without it. \<open>fresh\<close> is the
  name \<^verbatim>\<open>generateIdentity()\<close> would draw.\<close>

datatype localStorage = Unavailable | Available "string option"

definition saveIdentity :: "string \<Rightarrow> localStorage \<Rightarrow> localStorage" where
  "saveIdentity identity ls =
     (case ls of Unavailable \<Rightarrow> Unavailable | Available _ \<Rightarrow> Available (Some identity))"

definition getIdentity :: "string \<Rightarrow> localStorage \<Rightarrow> string \<times> localStorage" where
  "getIdentity fresh ls =
     (case ls of
        Available (Some stored) \<Rightarrow>
          if stored \<noteq> [] then (stored, ls) else (fresh, saveIdentity fresh ls)
      | _ \<Rightarrow> (fresh, saveIdentity fresh ls))"

datatype annotationType = DELETION | COMMENT

text \<open>The anchor hints of the library (\<^verbatim>\<open>DomMeta\<close>) and what it hands to the \<^verbatim>\<open>CREATE\<close>
  listener for a new highlight (\<^verbatim>\<open>HighlightSource\<close>).\<close>

record domMeta =
  parentTagName :: string
  parentIndex :: nat
  textOffset :: nat

record source =
  sourceId :: string
  sourceText :: string
  sourceStartMeta :: domMeta
  sourceEndMeta :: domMeta

text \<open>The annotation record, with the fields the two creation sites write. The comment
  body is the field \<^verbatim>\<open>text\<close>; the creation time is written to the field \<^verbatim>\<open>createdA\<close>.\<close>

record annotation =
  id' :: string
  blockId :: string
  startOffset :: nat
  endOffset :: nat
  type' :: annotationType
  text' :: "string option"
  originalText :: string
  createdA :: nat
  author :: string
  startMeta :: "domMeta option"
  endMeta :: "domMeta option"

text \<open>The editor mode. The component only asks whether the mode is \<^verbatim>\<open>'redline'\<close>; every
  other mode is the selection mode.\<close>

datatype editorMode = Selection | Redline

text \<open>The state of the viewer: the children of the article element (\<open>None\<close> while
  \<^verbatim>\<open>containerRef.current\<close> is null), whether \<^verbatim>\<open>highlighterRef.current\<close> is set, the pending
  source, the source of the open toolbar, the id of the hovered code block, the mode, the
  annotations handed to \<^verbatim>\<open>onAddAnnotation\<close> so far, the messages of \<^verbatim>\<open>console.warn\<close>, and
  the identity store.\<close>

record viewer =
  container :: "node list option"
  highlighter :: bool
  pendingSourceRef :: "source option"
  toolbarState :: "source option"
  hoveredCodeBlock :: "string option"
  modeRef :: editorMode
  added :: "annotation list"
  consoleWarn :: "string list"
  storage :: localStorage

text \<open>\<^verbatim>\<open>blockText.split(sep)[0]\<close>: the text before the first occurrence of the separator,
  the whole text when there is none; with the empty separator the text is split into
  its code units. \<open>None\<close> is \<^verbatim>\<open>undefined\<close> (the empty array).\<close>

definition splitFirst :: "string \<Rightarrow> string \<Rightarrow> string option" where
  "splitFirst t sep =
     (if sep = [] then (case t of [] \<Rightarrow> None | c # cs \<Rightarrow> Some [c])
      else (case indexOf t sep of None \<Rightarrow> Some t | Some i \<Rightarrow> Some (take i t)))"


text \<open>The walk from the first mark of a highlight up to the nearest ancestor with a
  non-empty \<^verbatim>\<open>data-block-id\<close>. The search goes down from the container and remembers the
  nearest such ancestor passed (\<open>ctx\<close>: its block id and its \<^verbatim>\<open>textContent\<close>); the
  article element and what lies above it carry no block id. The outer
  \<open>None\<close> says that the highlight has no mark; the inner one that the first mark has no
  such ancestor.\<close>

fun closestBlock ::
  "string \<Rightarrow> (string \<times> string) option \<Rightarrow> node list \<Rightarrow> (string \<times> string) option option" where
  "closestBlock i ctx [] = None"
| "closestBlock i ctx (TextNode t # ns) = closestBlock i ctx ns"
| "closestBlock i ctx (Element a ch # ns) =
     (if hasHighlightId i a then Some ctx
      else (case closestBlock i
                   (case dataBlockId a of
                      Some b \<Rightarrow> if b \<noteq> [] then Some (b, textContent ch) else ctx
                    | None \<Rightarrow> ctx) ch of
              Some found \<Rightarrow> Some found
            | None \<Rightarrow> closestBlock i ctx ns))"

definition typeClass :: "annotationType \<Rightarrow> string" where
  "typeClass ty = (case ty of DELETION \<Rightarrow> ''deletion'' | COMMENT \<Rightarrow> ''comment'')"

text \<open>\<^verbatim>\<open>createAnnotationFromSource(highlighter, source, type, text)\<close>; \<open>now\<close> is the value of
  \<^verbatim>\<open>Date.now()\<close>.\<close>

definition createAnnotationFromSource ::
  "nat \<Rightarrow> string \<Rightarrow> source \<Rightarrow> annotationType \<Rightarrow> string option \<Rightarrow> viewer \<Rightarrow> viewer" where
  "createAnnotationFromSource now fresh src ty txt st =
     (let root = (case container st of None \<Rightarrow> [] | Some r \<Rightarrow> r);
          (blockId0, startOffset0) =
            (case closestBlock (sourceId src) None root of
               Some (Some (b, blockText)) \<Rightarrow>
                 (b, (case splitFirst blockText (sourceText src) of
                        None \<Rightarrow> 0
                      | Some beforeText \<Rightarrow> length beforeText))
             | _ \<Rightarrow> ([], 0));
          (who, storage') = getIdentity fresh (storage st);
          newAnnotation =
            \<lparr>id' = sourceId src, blockId = blockId0, startOffset = startOffset0,
              endOffset = startOffset0 + length (sourceText src), type' = ty, text' = txt,
              originalText = sourceText src, createdA = now, author = who,
              startMeta = Some (sourceStartMeta src), endMeta = Some (sourceEndMeta src)\<rparr>
      in st\<lparr>container := map_option (addClass (typeClass ty) (sourceId src)) (container st),
             added := added st @ [newAnnotation],
             storage := storage'\<rparr>)"

text \<open>The listener of the library's \<^verbatim>\<open>CREATE\<close> event. The library has wrapped the marks
  of the new highlight before it calls the listener, so they are in the container
  already.\<close>

definition onCreate :: "nat \<Rightarrow> string \<Rightarrow> source list \<Rightarrow> viewer \<Rightarrow> viewer" where
  "onCreate now fresh sources st =
     (case sources of
        [] \<Rightarrow> st
      | src # _ \<Rightarrow>
          (case container st of
             None \<Rightarrow> st
           | Some root \<Rightarrow>
               if getDoms (sourceId src) root = [] then st
               else
                 (let st1 =
                        (case pendingSourceRef st of
                           Some pending \<Rightarrow>
                             st\<lparr>container := Some (highlighterRemove (sourceId pending) root),
                                pendingSourceRef := None\<rparr>
                         | None \<Rightarrow> st)
                  in if modeRef st = Redline
                     then createAnnotationFromSource now fresh src DELETION None st1
                     else st1\<lparr>pendingSourceRef := Some src, toolbarState := Some src\<rparr>)))"

definition handleAnnotate ::
  "nat \<Rightarrow> string \<Rightarrow> annotationType \<Rightarrow> string option \<Rightarrow> viewer \<Rightarrow> viewer" where
  "handleAnnotate now fresh ty txt st =
     (case toolbarState st of
        None \<Rightarrow> st
      | Some src \<Rightarrow>
          if \<not> highlighter st then st
          else (createAnnotationFromSource now fresh src ty txt st)
                 \<lparr>pendingSourceRef := None, toolbarState := None\<rparr>)"






text \<open>The mark the component creates by hand: \<^verbatim>\<open>className = 'annotation-highlight'\<close>,
  \<^verbatim>\<open>dataset.bindId = id\<close>, and the class of the annotation type.\<close>

definition wrapperMark :: "string \<Rightarrow> annotationType \<Rightarrow> attrs" where
  "wrapperMark i ty =
     \<lparr>tagName = ''mark'', classList = [''annotation-highlight'', typeClass ty],
      dataBlockId = None, dataBindId = Some i, dataHighlightId = None\<rparr>"


section \<open>Removing and restoring highlights\<close>



definition notFoundWarning :: "annotation \<Rightarrow> string" where
  "notFoundWarning ann =
     ''Could not find text for annotation '' @ id' ann @ '': '' @ [CHR 0x22]
       @ take 50 (originalText ann) @ ''...'' @ [CHR 0x22]"

text \<open>The body of the \<^verbatim>\<open>forEach\<close> in \<^verbatim>\<open>applySharedAnnotations\<close>, for a viewer whose
  container is \<open>root\<close>.\<close>

definition applyShared :: "bool \<Rightarrow> annotation \<Rightarrow> viewer \<Rightarrow> viewer" where
  "applyShared hasSelection ann st =
     (case container st of
        None \<Rightarrow> st
      | Some root \<Rightarrow>
          if getDoms (id' ann) root \<noteq> [] then st
          else if querySelectorAll (hasBindId (id' ann)) root \<noteq> [] then st
          else
            (case findTextInDOM (Some root) hasSelection (originalText ann) of
               None \<Rightarrow> st\<lparr>consoleWarn := consoleWarn st @ [notFoundWarning ann]\<rparr>
             | Some r \<Rightarrow>
                 st\<lparr>container := Some (wrapRange (wrapperMark (id' ann) (type' ann)) r root)\<rparr>))"

definition applySharedAnnotations :: "bool \<Rightarrow> annotation list \<Rightarrow> viewer \<Rightarrow> viewer" where
  "applySharedAnnotations hasSelection sharedAnnotations st =
     (if \<not> highlighter st \<or> container st = None then st
      else fold (applyShared hasSelection) sharedAnnotations st)"

text \<open>An annotation id is represented in one of the two indices: the library has marks
  for it, or a mark made by hand carries it.\<close>

definition represented :: "string \<Rightarrow> node list \<Rightarrow> bool" where
  "represented i root \<longleftrightarrow>
     getDoms i root \<noteq> [] \<or> querySelectorAll (hasBindId i) root \<noteq> []"

section \<open>The viewer as a machine\<close>





section \<open>Notions of the specification\<close>

text \<open>The flattened text of a block: the \<^verbatim>\<open>textContent\<close> of the first element that carries
  the block's id in \<^verbatim>\<open>data-block-id\<close>.\<close>

fun blockText :: "string \<Rightarrow> node list \<Rightarrow> string option" where
  "blockText b [] = None"
| "blockText b (TextNode t # ns) = blockText b ns"
| "blockText b (Element a ch # ns) =
     (if dataBlockId a = Some b then Some (textContent ch)
      else (case blockText b ch of Some t \<Rightarrow> Some t | None \<Rightarrow> blockText b ns))"

text \<open>What the component \<^verbatim>\<open>CodeBlock\<close> renders for a code block: the element with the
  block id, in it the copy button (an icon, no text) and \<^verbatim>\<open>pre > code\<close>. The children of
  the \<^verbatim>\<open>code\<close> element are the block's content as the syntax highlighter and earlier marks
  have left it.\<close>

definition plain :: "string \<Rightarrow> attrs" where
  "plain tag =
     \<lparr>tagName = tag, classList = [], dataBlockId = None, dataBindId = None,
      dataHighlightId = None\<rparr>"



text \<open>A position names a place that exists below the siblings: every index of the path
  but the last leads into an element that is there.\<close>

fun validPos :: "nat list \<Rightarrow> node list \<Rightarrow> bool" where
  "validPos [] ns = True"
| "validPos (i # p) [] = False"
| "validPos (0 # p) (TextNode t # ns) = True"
| "validPos (0 # p) (Element a ch # ns) = validPos p ch"
| "validPos (Suc i # p) (x # ns) = validPos (i # p) ns"

text \<open>A document of three blocks in which a text that runs across the first two blocks
  also stands inside the third.\<close>

definition doc_repeated :: "node list" where
  "doc_repeated =
     [Element \<lparr>tagName = ''h1'', classList = [], dataBlockId = Some ''b0'', dataBindId = None,
                dataHighlightId = None\<rparr> [TextNode ''Plan A''],
      Element \<lparr>tagName = ''p'', classList = [], dataBlockId = Some ''b1'', dataBindId = None,
                dataHighlightId = None\<rparr> [TextNode ''B is next''],
      Element \<lparr>tagName = ''p'', classList = [], dataBlockId = Some ''b2'', dataBindId = None,
                dataHighlightId = None\<rparr> [TextNode ''AB test'']]"

text \<open>A mounted viewer that shows this document, and a decoded annotation with a given
  id, type and captured text.\<close>

definition viewer0 :: viewer where
  "viewer0 =
     \<lparr>container = Some doc_repeated, highlighter = True, pendingSourceRef = None,
      toolbarState = None, hoveredCodeBlock = None, modeRef = Selection, added = [],
      consoleWarn = [], storage = Available None\<rparr>"

definition shared :: "string \<Rightarrow> annotationType \<Rightarrow> string \<Rightarrow> annotation" where
  "shared i ty s =
     \<lparr>id' = i, blockId = [], startOffset = 0, endOffset = 0, type' = ty, text' = None,
      originalText = s, createdA = 0, author = ''swift-falcon-tater'', startMeta = None,
      endMeta = None\<rparr>"

text \<open>The mark the library wraps for the highlight \<open>i\<close>, and the anchor hints of a source
  (their values play no part).\<close>

definition libraryMark :: "string \<Rightarrow> attrs" where
  "libraryMark i = (plain ''mark'')\<lparr>classList := [''annotation-highlight''],
                                     dataHighlightId := Some i\<rparr>"

definition meta0 :: domMeta where
  "meta0 = \<lparr>parentTagName = ''P'', parentIndex = 0, textOffset = 0\<rparr>"

definition selection :: "string \<Rightarrow> string \<Rightarrow> source" where
  "selection i s =
     \<lparr>sourceId = i, sourceText = s, sourceStartMeta = meta0, sourceEndMeta = meta0\<rparr>"

text \<open>The block \<^verbatim>\<open>para-1\<close> with the content \<^verbatim>\<open>The quick brown fox\<close>, in which the library has
  wrapped the selections \<^verbatim>\<open>quick\<close> (highlight \<^verbatim>\<open>hA\<close>) and \<^verbatim>\<open>brown\<close> (highlight \<^verbatim>\<open>hB\<close>);
  the first selection is pending.\<close>

definition doc_fox :: "node list" where
  "doc_fox =
     [Element ((plain ''p'')\<lparr>dataBlockId := Some ''para-1''\<rparr>)
        [TextNode ''The '', Element (libraryMark ''hA'') [TextNode ''quick''], TextNode '' '',
         Element (libraryMark ''hB'') [TextNode ''brown''], TextNode '' fox'']]"

definition viewer_fox :: viewer where
  "viewer_fox =
     viewer0\<lparr>container := Some doc_fox,
             pendingSourceRef := Some (selection ''hA'' ''quick''),
             toolbarState := Some (selection ''hA'' ''quick'')\<rparr>"




section \<open>Properties of the text search\<close>

subsection \<open>Occurrences and \<^verbatim>\<open>indexOf\<close>\<close>

lemma textNodes_concat: "concat (textNodes ns) = textContent ns"
  by (induction ns rule: textNodes.induct) auto

lemma occursAt_prefix: "occursAt s t i \<longleftrightarrow> i \<le> length t \<and> prefix s (drop i t)"
proof
  assume a: "occursAt s t i"
  then have "drop i t = s @ drop (length s) (drop i t)"
    unfolding occursAt_def by (metis append_take_drop_id)
  then show "i \<le> length t \<and> prefix s (drop i t)"
    using a unfolding occursAt_def prefix_def by auto
next
  assume "i \<le> length t \<and> prefix s (drop i t)"
  then obtain zs where i: "i \<le> length t" and z: "drop i t = s @ zs" by (auto simp: prefix_def)
  from z have "length t - i = length s + length zs" by (metis length_drop length_append)
  with i z show "occursAt s t i" unfolding occursAt_def by simp
qed

lemma occursAt_0: "occursAt s t 0 \<longleftrightarrow> prefix s t"
  by (simp add: occursAt_prefix)

lemma occursAt_Suc: "occursAt s (c # cs) (Suc i) \<longleftrightarrow> occursAt s cs i"
  by (simp add: occursAt_prefix)

lemma indexOf_Some:
  "indexOf t s = Some i \<Longrightarrow> occursAt s t i \<and> (\<forall>j<i. \<not> occursAt s t j)"
proof (induction t arbitrary: i)
  case Nil
  then show ?case by (auto simp: occursAt_def split: if_splits)
next
  case (Cons c cs)
  show ?case
  proof (cases "prefix s (c # cs)")
    case True
    with Cons.prems show ?thesis by (simp add: occursAt_0)
  next
    case False
    with Cons.prems obtain i' where i': "indexOf cs s = Some i'" "i = Suc i'" by auto
    from Cons.IH[OF i'(1)] have ih: "occursAt s cs i'" "\<forall>j<i'. \<not> occursAt s cs j" by auto
    have "\<not> occursAt s (c # cs) j" if "j < i" for j
    proof (cases j)
      case 0
      then show ?thesis using False by (simp add: occursAt_0)
    next
      case (Suc j')
      then show ?thesis using that ih(2) i'(2) by (simp add: occursAt_Suc)
    qed
    then show ?thesis using ih(1) i'(2) by (simp add: occursAt_Suc)
  qed
qed

lemma indexOf_None: "indexOf t s = None \<Longrightarrow> \<not> occursAt s t i"
proof (induction t arbitrary: i)
  case Nil
  then show ?case by (auto simp: occursAt_def split: if_splits)
next
  case (Cons c cs)
  then have np: "\<not> prefix s (c # cs)" and n: "indexOf cs s = None" by (auto split: if_splits)
  show ?case
  proof (cases i)
    case 0
    then show ?thesis using np by (simp add: occursAt_0)
  next
    case (Suc i')
    then show ?thesis using Cons.IH[OF n] by (simp add: occursAt_Suc)
  qed
qed

lemma sublist_occursAt: "sublist s t \<longleftrightarrow> (\<exists>i. occursAt s t i)"
proof
  assume "sublist s t"
  then obtain ps ss where "t = ps @ s @ ss" by (auto simp: sublist_def)
  then have "occursAt s t (length ps)" by (simp add: occursAt_def)
  then show "\<exists>i. occursAt s t i" ..
next
  assume "\<exists>i. occursAt s t i"
  then obtain i where "occursAt s t i" ..
  then have "t = take i t @ s @ drop (i + length s) t"
    unfolding occursAt_def
    by (metis append_take_drop_id drop_drop add.commute)
  then show "sublist s t" unfolding sublist_def by blast
qed

lemma indexOf_None_iff: "indexOf t s = None \<longleftrightarrow> \<not> sublist s t"
  using indexOf_None indexOf_Some sublist_occursAt
  by (metis not_Some_eq)

subsection \<open>The two walks over the text nodes\<close>

lemma concat_split_nth:
  "j < length ts \<Longrightarrow> concat ts = concat (take j ts) @ ts ! j @ concat (drop (Suc j) ts)"
proof -
  assume j: "j < length ts"
  have "concat ts = concat (take j ts) @ concat (drop j ts)"
    by (metis append_take_drop_id concat_append)
  moreover have "drop j ts = ts ! j # drop (Suc j) ts"
    using j by (simp add: Cons_nth_drop_Suc)
  ultimately show ?thesis by simp
qed

lemma drop_concat_take:
  "j < length ts \<Longrightarrow> drop (length (concat (take j ts))) (concat ts) = ts ! j @ concat (drop (Suc j) ts)"
  using concat_split_nth[of j ts] by (metis append_eq_conv_conj)

lemma length_concat_take_le:
  "j < length ts \<Longrightarrow> length (concat (take j ts)) + length (ts ! j) \<le> length (concat ts)"
proof -
  assume j: "j < length ts"
  have "length (concat ts) = length (concat (take j ts)) + length (ts ! j) + length (concat (drop (Suc j) ts))"
    using arg_cong[OF concat_split_nth[OF j], of length] by simp
  then show ?thesis by simp
qed

lemma occursAt_in_node:
  assumes j: "j < length ts" and o: "occursAt s (ts ! j) i"
  shows "occursAt s (concat ts) (absPos ts j i)"
proof -
  from o have i: "i \<le> length (ts ! j)" and p: "prefix s (drop i (ts ! j))"
    by (auto simp: occursAt_prefix)
  have "drop (absPos ts j i) (concat ts) = drop i (drop (length (concat (take j ts))) (concat ts))"
    by (simp add: absPos_def add.commute)
  also have "\<dots> = drop i (ts ! j) @ concat (drop (Suc j) ts)"
    using i by (simp add: drop_concat_take[OF j])
  finally have "prefix s (drop (absPos ts j i) (concat ts))"
    using p by (metis prefix_prefix)
  moreover have "absPos ts j i \<le> length (concat ts)"
    using length_concat_take_le[OF j] i by (simp add: absPos_def)
  ultimately show ?thesis by (simp add: occursAt_prefix)
qed

lemma walker_loop_Some:
  "walker_loop ts s k = Some r \<Longrightarrow>
   \<exists>j i. j < length ts \<and> indexOf (ts ! j) s = Some i \<and> (\<forall>j'<j. indexOf (ts ! j') s = None)
     \<and> r = \<lparr>startNode = k + j, startOff = i, endNode = k + j, endOff = i + length s\<rparr>"
proof (induction ts arbitrary: k)
  case Nil
  then show ?case by simp
next
  case (Cons t ts)
  show ?case
  proof (cases "indexOf t s")
    case (Some i)
    with Cons.prems have "r = \<lparr>startNode = k, startOff = i, endNode = k, endOff = i + length s\<rparr>"
      by simp
    with Some show ?thesis by (-, rule_tac x = "0" in exI, rule_tac x = "i" in exI, simp)
  next
    case None
    with Cons.prems have "walker_loop ts s (Suc k) = Some r" by simp
    from Cons.IH[OF this] obtain j i where ji: "j < length ts" "indexOf (ts ! j) s = Some i"
      "\<forall>j'<j. indexOf (ts ! j') s = None"
      "r = \<lparr>startNode = Suc k + j, startOff = i, endNode = Suc k + j, endOff = i + length s\<rparr>"
      by blast
    have "\<forall>j'<Suc j. indexOf ((t # ts) ! j') s = None"
      using None ji(3) by (auto simp: less_Suc_eq_0_disj)
    with ji show ?thesis by (-, rule_tac x = "Suc j" in exI, rule_tac x = "i" in exI, simp)
  qed
qed

lemma walker_loop_None: "walker_loop ts s k = None \<longleftrightarrow> (\<forall>t\<in>set ts. indexOf t s = None)"
  by (induction ts arbitrary: k) (auto split: option.splits)

lemma walker2_loop_end:
  assumes "cc < si + n" and "si + n \<le> cc + length (concat ts)"
  shows "\<exists>e eo. walker2_loop ts si n cc k (Some (sn, so))
           = Some \<lparr>startNode = sn, startOff = so, endNode = k + e, endOff = eo\<rparr>
         \<and> e < length ts \<and> cc + absPos ts e eo = si + n \<and> eo \<le> length (ts ! e)"
  using assms
proof (induction ts arbitrary: cc k)
  case Nil
  then show ?case by simp
next
  case (Cons t ts)
  show ?case
  proof (cases "cc + length t \<ge> si + n")
    case True
    then show ?thesis using Cons.prems
      by (-, rule_tac x = "0" in exI, rule_tac x = "si + n - cc" in exI, simp add: absPos_def)
  next
    case False
    then have 1: "cc + length t < si + n" by simp
    have 2: "si + n \<le> (cc + length t) + length (concat ts)" using Cons.prems by simp
    from Cons.IH[OF 1 2, of "Suc k"] obtain e eo where e:
      "walker2_loop ts si n (cc + length t) (Suc k) (Some (sn, so))
         = Some \<lparr>startNode = sn, startOff = so, endNode = Suc k + e, endOff = eo\<rparr>"
      "e < length ts" "cc + length t + absPos ts e eo = si + n" "eo \<le> length (ts ! e)"
      by blast
    show ?thesis using False e
      by (-, rule_tac x = "Suc e" in exI, rule_tac x = "eo" in exI, simp add: absPos_def)
  qed
qed

lemma walker2_loop_start:
  assumes "cc \<le> si" and "si < cc + length (concat ts)" and "si + n \<le> cc + length (concat ts)"
  shows "\<exists>a so e eo. walker2_loop ts si n cc k None
           = Some \<lparr>startNode = k + a, startOff = so, endNode = k + e, endOff = eo\<rparr>
         \<and> a < length ts \<and> cc + absPos ts a so = si \<and> so < length (ts ! a)
         \<and> a \<le> e \<and> e < length ts \<and> cc + absPos ts e eo = si + n \<and> eo \<le> length (ts ! e)"
  using assms
proof (induction ts arbitrary: cc k)
  case Nil
  then show ?case by simp
next
  case (Cons t ts)
  show ?case
  proof (cases "cc + length t > si")
    case found: True
    show ?thesis
    proof (cases "cc + length t \<ge> si + n")
      case True
      then show ?thesis using found Cons.prems
        by (-, rule_tac x = "0" in exI, rule_tac x = "si - cc" in exI, rule_tac x = "0" in exI, rule_tac x = "si + n - cc" in exI, auto simp add: absPos_def)
    next
      case False
      then have 1: "cc + length t < si + n" by simp
      have 2: "si + n \<le> (cc + length t) + length (concat ts)" using Cons.prems by simp
      from walker2_loop_end[OF 1 2, of "Suc k" k "si - cc"] obtain e eo where e:
        "walker2_loop ts si n (cc + length t) (Suc k) (Some (k, si - cc))
           = Some \<lparr>startNode = k, startOff = si - cc, endNode = Suc k + e, endOff = eo\<rparr>"
        "e < length ts" "cc + length t + absPos ts e eo = si + n" "eo \<le> length (ts ! e)"
        by blast
      show ?thesis using found False e Cons.prems
        by (-, rule_tac x = "0" in exI, rule_tac x = "si - cc" in exI, rule_tac x = "Suc e" in exI, rule_tac x = "eo" in exI, simp add: absPos_def)
    qed
  next
    case False
    then have 1: "cc + length t \<le> si" by simp
    have 2: "si < (cc + length t) + length (concat ts)" using Cons.prems by simp
    have 3: "si + n \<le> (cc + length t) + length (concat ts)" using Cons.prems by simp
    from Cons.IH[OF 1 2 3, of "Suc k"] obtain a so e eo where r:
      "walker2_loop ts si n (cc + length t) (Suc k) None
         = Some \<lparr>startNode = Suc k + a, startOff = so, endNode = Suc k + e, endOff = eo\<rparr>"
      "a < length ts" "cc + length t + absPos ts a so = si" "so < length (ts ! a)"
      "a \<le> e" "e < length ts" "cc + length t + absPos ts e eo = si + n" "eo \<le> length (ts ! e)"
      by blast
    show ?thesis using False r
      by (-, rule_tac x = "Suc a" in exI, rule_tac x = "so" in exI, rule_tac x = "Suc e" in exI, rule_tac x = "eo" in exI, simp add: absPos_def)
  qed
qed

subsection \<open>The resolver\<close>

lemma sublist_indexOf: "sublist s t \<Longrightarrow> \<exists>i. indexOf t s = Some i"
  using indexOf_None_iff[of t s] by auto

lemma indexOf_sublist: "indexOf t s = Some i \<Longrightarrow> sublist s t"
  using indexOf_None_iff[of t s] by auto

lemma rangeText_occurs:
  assumes "occursAt s (concat ts) (absPos ts (startNode r) (startOff r))"
    and "absPos ts (endNode r) (endOff r) = absPos ts (startNode r) (startOff r) + length s"
  shows "rangeText ts r = s"
  using assms by (simp add: rangeText_def occursAt_def Let_def)

lemma findTextInDOM_Some:
  assumes f: "findTextInDOM (Some root) hasSelection s = Some r"
  shows "validRange (textNodes root) r
    \<and> occursAt s (textContent root) (absPos (textNodes root) (startNode r) (startOff r))
    \<and> absPos (textNodes root) (endNode r) (endOff r)
        = absPos (textNodes root) (startNode r) (startOff r) + length s
    \<and> (if \<exists>t\<in>set (textNodes root). sublist s t
        then endNode r = startNode r
           \<and> indexOf (textNodes root ! startNode r) s = Some (startOff r)
           \<and> (\<forall>j<startNode r. \<not> sublist s (textNodes root ! j))
        else indexOf (textContent root) s
           = Some (absPos (textNodes root) (startNode r) (startOff r)))"
proof (cases "walker_loop (textNodes root) s 0")
  case (Some r')
  with f have rr: "r' = r" by (simp add: findTextInDOM_def)
  let ?ts = "textNodes root"
  from walker_loop_Some[OF Some] rr obtain j i where ji: "j < length ?ts"
    "indexOf (?ts ! j) s = Some i" "\<forall>j'<j. indexOf (?ts ! j') s = None"
    "r = \<lparr>startNode = j, startOff = i, endNode = j, endOff = i + length s\<rparr>"
    by auto
  from indexOf_Some[OF ji(2)] have o: "occursAt s (?ts ! j) i" by simp
  then have b: "i + length s \<le> length (?ts ! j)" by (simp add: occursAt_def)
  have v: "validRange ?ts r" using ji(1,4) b by (simp add: validRange_def)
  have oc: "occursAt s (textContent root) (absPos ?ts j i)"
    using occursAt_in_node[OF ji(1) o] by (simp add: textNodes_concat)
  have ex: "\<exists>t\<in>set ?ts. sublist s t"
    using ji(1,2) indexOf_sublist nth_mem by blast
  have least: "\<forall>j'<j. \<not> sublist s (?ts ! j')"
    using ji(3) indexOf_None_iff by blast
  show ?thesis using v oc ex least ji(2,4) by (simp add: absPos_def)
next
  case None
  let ?ts = "textNodes root"
  from None have nofast: "\<forall>t\<in>set ?ts. \<not> sublist s t"
    by (simp add: walker_loop_None indexOf_None_iff)
  from f None obtain si where si: "indexOf (textContent root) s = Some si"
    and w: "walker2_loop ?ts si (length s) 0 0 None = Some r"
    by (auto simp: findTextInDOM_def split: option.splits if_splits)
  from w have ne: "?ts \<noteq> []" by auto
  then have "hd ?ts \<in> set ?ts" by simp
  with nofast have "\<not> sublist s (hd ?ts)" by blast
  then have sne: "s \<noteq> []" by auto
  from indexOf_Some[OF si] have o: "occursAt s (concat ?ts) si" by (simp add: textNodes_concat)
  then have b: "si + length s \<le> 0 + length (concat ?ts)" by (simp add: occursAt_def)
  with sne have b2: "si < 0 + length (concat ?ts)" by (cases s) auto
  from walker2_loop_start[OF _ b2 b, of 0] w obtain a so e eo where r:
    "r = \<lparr>startNode = a, startOff = so, endNode = e, endOff = eo\<rparr>"
    "a < length ?ts" "absPos ?ts a so = si" "so < length (?ts ! a)"
    "a \<le> e" "e < length ?ts" "absPos ?ts e eo = si + length s" "eo \<le> length (?ts ! e)"
    by auto
  have "a = e \<longrightarrow> so \<le> eo" using r(3,7) by (auto simp: absPos_def)
  then have v: "validRange ?ts r" using r by (simp add: validRange_def)
  show ?thesis using v o r(1,3,7) nofast si by (simp add: textNodes_concat)
qed

lemma findTextInDOM_finds:
  assumes sub: "sublist s (textContent root)" and ne: "textNodes root \<noteq> []"
    and sel: "hasSelection \<or> (\<exists>t\<in>set (textNodes root). sublist s t)"
  shows "\<exists>r. findTextInDOM (Some root) hasSelection s = Some r"
proof (cases "walker_loop (textNodes root) s 0")
  case (Some r)
  then show ?thesis by (simp add: findTextInDOM_def)
next
  case None
  let ?ts = "textNodes root"
  from None have nofast: "\<forall>t\<in>set ?ts. \<not> sublist s t"
    by (simp add: walker_loop_None indexOf_None_iff)
  with sel have hs: hasSelection by blast
  from ne have "hd ?ts \<in> set ?ts" by simp
  with nofast have "\<not> sublist s (hd ?ts)" by blast
  then have sne: "s \<noteq> []" by auto
  from sublist_indexOf[OF sub] obtain si where si: "indexOf (textContent root) s = Some si" ..
  from indexOf_Some[OF si] have o: "occursAt s (concat ?ts) si" by (simp add: textNodes_concat)
  then have b: "si + length s \<le> 0 + length (concat ?ts)" by (simp add: occursAt_def)
  with sne have b2: "si < 0 + length (concat ?ts)" by (cases s) auto
  from walker2_loop_start[OF _ b2 b, of 0] obtain r where
    "walker2_loop ?ts si (length s) 0 0 None = Some r" by blast
  with None si hs show ?thesis by (simp add: findTextInDOM_def)
qed


text \<open>
  Claim C2, as the code has it. Let the document have a text node, let the captured text
  occur in its flattened text, and let a selection object be available unless some text
  node holds the captured text whole. Then \<^verbatim>\<open>findTextInDOM\<close> returns a range, the text of
  the range is the captured text, and the range starts at an occurrence of it. If some
  text node holds the captured text whole, the range lies in the first such node, at the
  first occurrence in that node; otherwise it starts at the first occurrence in the
  flattened text. If the captured text occurs at one position only, the range starts
  there. The resolver is a function of the document and the text, so every call gives
  the same range.
\<close>

theorem findTextInDOM_resolves:
  assumes "sublist s (textContent root)" and "textNodes root \<noteq> []"
    and "hasSelection \<or> (\<exists>t\<in>set (textNodes root). sublist s t)"
  shows "\<exists>r. findTextInDOM (Some root) hasSelection s = Some r
    \<and> rangeText (textNodes root) r = s
    \<and> occursAt s (textContent root) (absPos (textNodes root) (startNode r) (startOff r))
    \<and> (if \<exists>t\<in>set (textNodes root). sublist s t
        then endNode r = startNode r
           \<and> indexOf (textNodes root ! startNode r) s = Some (startOff r)
           \<and> (\<forall>j<startNode r. \<not> sublist s (textNodes root ! j))
        else indexOf (textContent root) s
           = Some (absPos (textNodes root) (startNode r) (startOff r)))
    \<and> (\<forall>p. (\<forall>i. occursAt s (textContent root) i \<longrightarrow> i = p)
           \<longrightarrow> absPos (textNodes root) (startNode r) (startOff r) = p)"
proof -
  from findTextInDOM_finds[OF assms] obtain r where
    r: "findTextInDOM (Some root) hasSelection s = Some r" ..
  note p = findTextInDOM_Some[OF r]
  have t: "rangeText (textNodes root) r = s"
    using p rangeText_occurs[of s "textNodes root" r] by (simp add: textNodes_concat)
  show ?thesis using r p t by (intro exI[of _ r]) auto
qed


text \<open>
  The claim as stated fails: the captured text \<^verbatim>\<open>AB\<close> first occurs at position 5 of the
  flattened text, across the heading and the first paragraph, and the resolver returns
  the occurrence inside the third block, at position 15. Two more inputs show what the
  resolver needs besides an occurrence: a text that runs across two text nodes is not
  found without a selection object, and the empty text is not found in a document
  without a text node.
\<close>

theorem findTextInDOM_not_first_occurrence:
  "findTextInDOM (Some doc_repeated) True ''AB''
     = Some \<lparr>startNode = 2, startOff = 0, endNode = 2, endOff = 2\<rparr>
   \<and> absPos (textNodes doc_repeated) 2 0 = 15
   \<and> indexOf (textContent doc_repeated) ''AB'' = Some 5
   \<and> findTextInDOM (Some doc_repeated) False ''AB is'' = None
   \<and> indexOf (textContent doc_repeated) ''AB is'' = Some 5
   \<and> findTextInDOM (Some []) True [] = None
   \<and> indexOf (textContent []) [] = Some 0"
  by (simp add: findTextInDOM_def doc_repeated_def absPos_def)

theorem findTextInDOM_resolves_witness:
  "\<exists>r. findTextInDOM (Some doc_repeated) True ''AB is'' = Some r
     \<and> rangeText (textNodes doc_repeated) r = ''AB is''"
proof -
  have "sublist ''AB is'' (textContent doc_repeated)"
    by (simp add: doc_repeated_def sublist_code)
  moreover have "textNodes doc_repeated \<noteq> []"
    by (simp add: doc_repeated_def)
  ultimately show ?thesis
    using findTextInDOM_resolves[of "''AB is''" doc_repeated True] by blast
qed

section \<open>Properties of wrapping a range\<close>

subsection \<open>The flattened text is kept\<close>

lemma splitAt_text:
  "splitAt k off ns = (l, r) \<Longrightarrow> textContent l @ textContent r = textContent ns"
proof (induction k off ns arbitrary: l r rule: splitAt.induct)
  case (1 k off)
  then show ?case by simp
next
  case (2 k off t ns)
  then show ?case by (auto split: if_splits prod.splits)
next
  case (3 k off a ch ns)
  then show ?case by (auto split: if_splits prod.splits)
qed

lemma insertNode_shiftPos:
  "shiftPos pos = (p', off') \<Longrightarrow> pos = (p, off)
   \<Longrightarrow> insertNode n p' off' (x # ns) = x # insertNode n p off ns"
  by (cases p) auto

lemma textNodes_nth_Element_left:
  "k < length (textNodes ch) \<Longrightarrow> textNodes (Element a ch # ns) ! k = textNodes ch ! k"
  by (simp add: nth_append)

lemma textNodes_nth_Element_right:
  "length (textNodes ch) \<le> k
   \<Longrightarrow> textNodes (Element a ch # ns) ! k = textNodes ns ! (k - length (textNodes ch))"
  by (simp add: nth_append)

lemma extract_insert_text:
  assumes "ks \<le> ke"
    and "ks = ke \<longrightarrow> os \<le> oe \<and> (ks < length (textNodes ns) \<longrightarrow> os \<le> length (textNodes ns ! ks))"
    and "extractContents ks os ke oe ns = (frag, rest, (p, off))"
  shows "textContent (insertNode (Element w frag) p off rest) = textContent ns"
  using assms
proof (induction ks os ke oe ns arbitrary: frag rest p off rule: extractContents.induct)
  case (1 ks os ke oe)
  then show ?case by simp
next
  case (2 ks os ke oe t ns)
  show ?case
  proof (cases "ks = 0")
    case True
    show ?thesis
    proof (cases "ke = 0")
      case ke: True
      with True "2.prems" have o: "os \<le> oe" "os \<le> length t" by auto
      have "take os t @ take (oe - os) (drop os t) @ drop oe t = t"
        using o by (metis append_take_drop_id drop_drop le_add_diff_inverse2 append.assoc add.commute)
      with True ke "2.prems"(3) o show ?thesis by auto
    next
      case False
      obtain l r where lr: "splitAt (ke - 1) oe ns = (l, r)" by (cases "splitAt (ke - 1) oe ns")
      from splitAt_text[OF lr] True False lr "2.prems"(3) show ?thesis by auto
    qed
  next
    case False
    obtain f1 r1 p1 o1 where e: "extractContents (ks - 1) os (ke - 1) oe ns = (f1, r1, (p1, o1))"
      by (metis prod_cases3 surj_pair)
    obtain p2 o2 where s: "shiftPos (p1, o1) = (p2, o2)" by (cases "shiftPos (p1, o1)")
    have a1: "ks - 1 \<le> ke - 1" using "2.prems"(1) by simp
    have a2: "ks - 1 = ke - 1 \<longrightarrow> os \<le> oe \<and>
        (ks - 1 < length (textNodes ns) \<longrightarrow> os \<le> length (textNodes ns ! (ks - 1)))"
      using "2.prems"(1,2) False by (cases ks; cases ke) auto
    from "2.IH"[OF False a1 a2 e]
    have ih: "textContent (insertNode (Element w f1) p1 o1 r1) = textContent ns" .
    from "2.prems"(3) False e s have
      "frag = f1" "rest = TextNode t # r1" "p = p2" "off = o2" by auto
    with ih insertNode_shiftPos[OF s refl] show ?thesis by simp
  qed
next
  case (3 ks os ke oe a ch ns)
  let ?c = "length (textNodes ch)"
  show ?case
  proof (cases "?c \<le> ks")
    case True
    obtain f1 r1 p1 o1 where e: "extractContents (ks - ?c) os (ke - ?c) oe ns = (f1, r1, (p1, o1))"
      by (metis prod_cases3 surj_pair)
    obtain p2 o2 where s: "shiftPos (p1, o1) = (p2, o2)" by (cases "shiftPos (p1, o1)")
    have a1: "ks - ?c \<le> ke - ?c" using "3.prems"(1) by simp
    have a2: "ks - ?c = ke - ?c \<longrightarrow> os \<le> oe \<and>
        (ks - ?c < length (textNodes ns) \<longrightarrow> os \<le> length (textNodes ns ! (ks - ?c)))"
      using "3.prems"(1,2) True by (auto simp: nth_append)
    from "3.IH"(1)[OF True a1 a2 e]
    have ih: "textContent (insertNode (Element w f1) p1 o1 r1) = textContent ns" .
    from "3.prems"(3) True e s have
      "frag = f1" "rest = Element a ch # r1" "p = p2" "off = o2" by auto
    with ih insertNode_shiftPos[OF s refl] show ?thesis by simp
  next
    case False
    show ?thesis
    proof (cases "ke < ?c")
      case True
      obtain f1 r1 p1 o1 where e: "extractContents ks os ke oe ch = (f1, r1, (p1, o1))"
        by (metis prod_cases3 surj_pair)
      have a2: "ks = ke \<longrightarrow> os \<le> oe \<and>
          (ks < length (textNodes ch) \<longrightarrow> os \<le> length (textNodes ch ! ks))"
        using "3.prems"(2) False by (auto simp: nth_append)
      from "3.IH"(2)[OF False True "3.prems"(1) a2 e]
      have ih: "textContent (insertNode (Element w f1) p1 o1 r1) = textContent ch" .
      from "3.prems"(3) False True e have
        "frag = f1" "rest = Element a r1 # ns" "p = 0 # p1" "off = o1" by auto
      with ih show ?thesis by simp
    next
      case ke: False
      obtain fl fr where f: "splitAt ks os ch = (fl, fr)" by (cases "splitAt ks os ch")
      obtain l r where lr: "splitAt (ke - ?c) oe ns = (l, r)" by (cases "splitAt (ke - ?c) oe ns")
      from "3.prems"(3) False ke f lr have
        "frag = Element a fr # l" "rest = Element a fl # r" "p = []" "off = 1" by auto
      with splitAt_text[OF f] splitAt_text[OF lr] show ?thesis
        by (simp add: append.assoc[symmetric] del: append.assoc)
    qed
  qed
qed

lemma extractAndInsert_text:
  assumes "validRange (textNodes root) r"
  shows "textContent (extractAndInsert w r root) = textContent root"
proof -
  obtain frag rest p off where
    e: "extractContents (startNode r) (startOff r) (endNode r) (endOff r) root = (frag, rest, (p, off))"
    by (metis prod_cases3 surj_pair)
  have "textContent (insertNode (Element w frag) p off rest) = textContent root"
    using assms by (intro extract_insert_text[OF _ _ e]) (auto simp: validRange_def)
  with e show ?thesis by (simp add: extractAndInsert_def)
qed

lemma wrapRange_text:
  "validRange (textNodes root) r \<Longrightarrow> textContent (wrapRange w r root) = textContent root"
  by (simp add: wrapRange_def surroundContents_def extractAndInsert_text)

section \<open>Properties of unwrapping\<close>


lemma textNodes_append: "textNodes (xs @ ys) = textNodes xs @ textNodes ys"
  by (induction xs rule: textNodes.induct) auto

lemma querySelectorAll_append:
  "querySelectorAll P (xs @ ys) = querySelectorAll P xs @ querySelectorAll P ys"
  by (induction xs rule: textNodes.induct) auto














section \<open>The elements of a document after wrapping\<close>

lemma splitAt_query:
  "splitAt k off ns = (l, r)
   \<Longrightarrow> set (querySelectorAll P l) \<union> set (querySelectorAll P r) = set (querySelectorAll P ns)"
proof (induction k off ns arbitrary: l r rule: splitAt.induct)
  case (1 k off)
  then show ?case by simp
next
  case (2 k off t ns)
  show ?case
  proof (cases "k = 0")
    case True
    with "2.prems" have "l = [TextNode (take off t)]" "r = TextNode (drop off t) # ns" by auto
    then show ?thesis by simp
  next
    case False
    obtain l1 r1 where s: "splitAt (k - 1) off ns = (l1, r1)" by (cases "splitAt (k - 1) off ns")
    from "2.prems" False s have eq: "l = TextNode t # l1" "r = r1" by auto
    show ?thesis unfolding eq using "2.IH"[OF False s] by simp
  qed
next
  case (3 k off a ch ns)
  show ?case
  proof (cases "k < length (textNodes ch)")
    case True
    obtain l1 r1 where s: "splitAt k off ch = (l1, r1)" by (cases "splitAt k off ch")
    from "3.prems" True s have eq: "l = [Element a l1]" "r = Element a r1 # ns" by auto
    show ?thesis unfolding eq using "3.IH"(1)[OF True s, symmetric] by auto
  next
    case False
    obtain l1 r1 where s: "splitAt (k - length (textNodes ch)) off ns = (l1, r1)"
      by (cases "splitAt (k - length (textNodes ch)) off ns")
    from "3.prems" False s have eq: "l = Element a ch # l1" "r = r1" by auto
    show ?thesis unfolding eq using "3.IH"(2)[OF False s, symmetric] by auto
  qed
qed

lemma validPos_shiftPos:
  "shiftPos (p, off) = (p', off') \<Longrightarrow> validPos p ns \<Longrightarrow> validPos p' (x # ns)"
  by (cases p) auto

lemma insertNode_query_set:
  "validPos p ns
   \<Longrightarrow> set (querySelectorAll P (insertNode n p off ns))
       = set (querySelectorAll P ns) \<union> set (querySelectorAll P [n])"
proof (induction n p off ns rule: insertNode.induct)
  case (1 n off ns)
  have "querySelectorAll P (take off ns @ n # drop off ns)
      = querySelectorAll P (take off ns) @ querySelectorAll P [n] @ querySelectorAll P (drop off ns)"
    using querySelectorAll_append[of P "take off ns" "[n] @ drop off ns"]
      querySelectorAll_append[of P "[n]" "drop off ns"] by simp
  moreover have "querySelectorAll P ns
      = querySelectorAll P (take off ns) @ querySelectorAll P (drop off ns)"
    using querySelectorAll_append[of P "take off ns" "drop off ns"] by simp
  ultimately show ?case by auto
next
  case (2 n i p off)
  then show ?case by simp
next
  case (3 n p off t ns)
  have "querySelectorAll P (n # TextNode (drop off t) # ns)
      = querySelectorAll P [n] @ querySelectorAll P ns"
    using querySelectorAll_append[of P "[n]" "TextNode (drop off t) # ns"] by simp
  then show ?case by auto
next
  case (4 n p off a ch ns)
  then show ?case by auto
next
  case (5 n i p off x ns)
  then have ih: "set (querySelectorAll P (insertNode n (i # p) off ns))
      = set (querySelectorAll P ns) \<union> set (querySelectorAll P [n])" by simp
  show ?case using ih by (cases x) auto
qed


lemma extractContents_query_validPos:
  "extractContents ks os ke oe ns = (frag, rest, (p, off))
   \<Longrightarrow> validPos p rest
     \<and> set (querySelectorAll P frag) \<union> set (querySelectorAll P rest)
         = set (querySelectorAll P ns)"
proof (induction ks os ke oe ns arbitrary: frag rest p off rule: extractContents.induct)
  case (1 ks os ke oe)
  then show ?case by simp
next
  case (2 ks os ke oe t ns)
  show ?case
  proof (cases "ks = 0")
    case True
    show ?thesis
    proof (cases "ke = 0")
      case ke: True
      with True "2.prems" have eq: "frag = [TextNode (take (oe - os) (drop os t))]"
        "rest = TextNode (take os t @ drop oe t) # ns" "p = [0]" by auto
      show ?thesis unfolding eq by simp
    next
      case False
      obtain l r where lr: "splitAt (ke - 1) oe ns = (l, r)" by (cases "splitAt (ke - 1) oe ns")
      from True False lr "2.prems" have eq: "frag = TextNode (drop os t) # l"
        "rest = TextNode (take os t) # r" "p = []" by auto
      show ?thesis unfolding eq using splitAt_query[OF lr, of P] by simp
    qed
  next
    case False
    obtain f1 r1 p1 o1 where e: "extractContents (ks - 1) os (ke - 1) oe ns = (f1, r1, (p1, o1))"
      by (metis prod_cases3 surj_pair)
    obtain p2 o2 where s: "shiftPos (p1, o1) = (p2, o2)" by (cases "shiftPos (p1, o1)")
    from "2.IH"[OF False e] have ih: "validPos p1 r1"
      "set (querySelectorAll P f1) \<union> set (querySelectorAll P r1) = set (querySelectorAll P ns)"
      by auto
    from "2.prems" False e s have
      eq: "frag = f1" "rest = TextNode t # r1" "p = p2" "off = o2" by auto
    show ?thesis unfolding eq using ih(2) validPos_shiftPos[OF s ih(1)] by simp
  qed
next
  case (3 ks os ke oe a ch ns)
  let ?c = "length (textNodes ch)"
  show ?case
  proof (cases "?c \<le> ks")
    case True
    obtain f1 r1 p1 o1 where e: "extractContents (ks - ?c) os (ke - ?c) oe ns = (f1, r1, (p1, o1))"
      by (metis prod_cases3 surj_pair)
    obtain p2 o2 where s: "shiftPos (p1, o1) = (p2, o2)" by (cases "shiftPos (p1, o1)")
    from "3.IH"(1)[OF True e] have ih: "validPos p1 r1"
      "set (querySelectorAll P f1) \<union> set (querySelectorAll P r1) = set (querySelectorAll P ns)"
      by auto
    from "3.prems" True e s have
      eq: "frag = f1" "rest = Element a ch # r1" "p = p2" "off = o2" by auto
    have v: "validPos p2 (Element a ch # r1)" by (rule validPos_shiftPos[OF s ih(1)])
    show ?thesis unfolding eq using ih(2)[symmetric] v by auto
  next
    case False
    show ?thesis
    proof (cases "ke < ?c")
      case True
      obtain f1 r1 p1 o1 where e: "extractContents ks os ke oe ch = (f1, r1, (p1, o1))"
        by (metis prod_cases3 surj_pair)
      from "3.IH"(2)[OF False True e] have ih: "validPos p1 r1"
        "set (querySelectorAll P f1) \<union> set (querySelectorAll P r1) = set (querySelectorAll P ch)"
        by auto
      from "3.prems" False True e have
        eq: "frag = f1" "rest = Element a r1 # ns" "p = 0 # p1" "off = o1" by auto
      show ?thesis unfolding eq using ih(1) ih(2)[symmetric] by auto
    next
      case ke: False
      obtain fl fr where f: "splitAt ks os ch = (fl, fr)" by (cases "splitAt ks os ch")
      obtain l r where lr: "splitAt (ke - ?c) oe ns = (l, r)" by (cases "splitAt (ke - ?c) oe ns")
      from "3.prems" False ke f lr have
        eq: "frag = Element a fr # l" "rest = Element a fl # r" "p = []" "off = 1" by auto
      show ?thesis unfolding eq
        using splitAt_query[OF f, of P, symmetric] splitAt_query[OF lr, of P, symmetric] by auto
    qed
  qed
qed

lemma extractAndInsert_query_set:
  "set (querySelectorAll P (extractAndInsert w r root))
     = set (querySelectorAll P root) \<union> (if P w then {w} else {})"
proof -
  obtain frag rest p off where
    e: "extractContents (startNode r) (startOff r) (endNode r) (endOff r) root = (frag, rest, (p, off))"
    by (metis prod_cases3 surj_pair)
  note q = extractContents_query_validPos[OF e, of P]
  have "set (querySelectorAll P (insertNode (Element w frag) p off rest))
      = set (querySelectorAll P rest) \<union> set (querySelectorAll P [Element w frag])"
    using q by (intro insertNode_query_set) simp
  with q e show ?thesis by (auto simp: extractAndInsert_def)
qed


lemma wrapRange_eq: "wrapRange w r root = extractAndInsert w r root"
  by (simp add: wrapRange_def surroundContents_def)

lemma wrapRange_query_set:
  "set (querySelectorAll P (wrapRange w r root))
     = set (querySelectorAll P root) \<union> (if P w then {w} else {})"
  by (simp only: wrapRange_eq extractAndInsert_query_set)


section \<open>The content of the extracted fragment\<close>














section \<open>Restoring shared annotations\<close>

subsection \<open>One annotation\<close>

lemma getDoms_wrapRange_wrapperMark:
  "set (getDoms i (wrapRange (wrapperMark j ty) r root)) = set (getDoms i root)"
  by (simp add: getDoms_def wrapRange_query_set hasHighlightId_def wrapperMark_def)

lemma represented_set:
  "represented i root \<longleftrightarrow>
     set (getDoms i root) \<noteq> {} \<or> set (querySelectorAll (hasBindId i) root) \<noteq> {}"
  by (simp add: represented_def)

lemma represented_wrapRange:
  "represented i (wrapRange (wrapperMark j ty) r root) \<longleftrightarrow> represented i root \<or> i = j"
  unfolding represented_set getDoms_wrapRange_wrapperMark
  by (auto simp: wrapRange_query_set hasBindId_def wrapperMark_def)

lemma applyShared_represented:
  "container st = Some root \<Longrightarrow> represented (id' a) root \<Longrightarrow> applyShared h a st = st"
  by (auto simp: applyShared_def represented_def)

lemma applyShared_cases [consumes 1, case_names skip warn wrap]:
  assumes "container st = Some root"
  obtains (skip) "represented (id' a) root" "applyShared h a st = st"
  | (warn) "\<not> represented (id' a) root" "findTextInDOM (Some root) h (originalText a) = None"
      "applyShared h a st = st\<lparr>consoleWarn := consoleWarn st @ [notFoundWarning a]\<rparr>"
  | (wrap) r where "\<not> represented (id' a) root"
      "findTextInDOM (Some root) h (originalText a) = Some r"
      "applyShared h a st
         = st\<lparr>container := Some (wrapRange (wrapperMark (id' a) (type' a)) r root)\<rparr>"
proof (cases "represented (id' a) root")
  case True
  then show ?thesis using skip applyShared_represented[OF assms] by blast
next
  case False
  then have n: "getDoms (id' a) root = []" "querySelectorAll (hasBindId (id' a)) root = []"
    by (auto simp: represented_def)
  show ?thesis
  proof (cases "findTextInDOM (Some root) h (originalText a)")
    case None
    with n assms have
      "applyShared h a st = st\<lparr>consoleWarn := consoleWarn st @ [notFoundWarning a]\<rparr>"
      by (simp add: applyShared_def)
    with False None show ?thesis using warn by blast
  next
    case (Some r)
    with n assms have "applyShared h a st
         = st\<lparr>container := Some (wrapRange (wrapperMark (id' a) (type' a)) r root)\<rparr>"
      by (simp add: applyShared_def)
    with False Some show ?thesis using wrap by blast
  qed
qed

lemma applyShared_inv:
  assumes c: "container st = Some root"
  shows "\<exists>root'. container (applyShared h a st) = Some root'
     \<and> textContent root' = textContent root
     \<and> (\<forall>i. represented i root' \<longleftrightarrow>
            represented i root \<or> (i = id' a \<and> findTextInDOM (Some root) h (originalText a) \<noteq> None))"
  using c
proof (cases rule: applyShared_cases[where a = a and h = h])
  case skip
  with c show ?thesis by auto
next
  case warn
  with c show ?thesis by auto
next
  case (wrap r)
  from findTextInDOM_Some[OF wrap(2)] have v: "validRange (textNodes root) r" by simp
  show ?thesis using wrap c wrapRange_text[OF v] by (auto simp: represented_wrapRange)
qed

lemma applyShared_frame:
  "highlighter (applyShared h a st) = highlighter st
   \<and> added (applyShared h a st) = added st
   \<and> pendingSourceRef (applyShared h a st) = pendingSourceRef st
   \<and> toolbarState (applyShared h a st) = toolbarState st
   \<and> (container st = None \<longrightarrow> applyShared h a st = st)"
  by (auto simp: applyShared_def split: option.splits)







subsection \<open>What a wrapped range leaves of the text nodes\<close>

lemma splitAt_pieces:
  "splitAt k off ns = (l, r)
   \<Longrightarrow> \<forall>t'\<in>set (textNodes l) \<union> set (textNodes r). \<exists>t\<in>set (textNodes ns). sublist t' t"
proof (induction k off ns arbitrary: l r rule: splitAt.induct)
  case (1 k off)
  then show ?case by simp
next
  case (2 k off t ns)
  show ?case
  proof (cases "k = 0")
    case True
    with "2.prems" have eq: "l = [TextNode (take off t)]" "r = TextNode (drop off t) # ns" by auto
    have "sublist (take off t) t" "sublist (drop off t) t"
      by (simp_all add: prefix_imp_sublist suffix_imp_sublist take_is_prefix suffix_drop)
    then show ?thesis unfolding eq by auto
  next
    case False
    obtain l1 r1 where s: "splitAt (k - 1) off ns = (l1, r1)" by (cases "splitAt (k - 1) off ns")
    from "2.prems" False s have eq: "l = TextNode t # l1" "r = r1" by auto
    show ?thesis unfolding eq using "2.IH"[OF False s] by auto
  qed
next
  case (3 k off a ch ns)
  show ?case
  proof (cases "k < length (textNodes ch)")
    case True
    obtain l1 r1 where s: "splitAt k off ch = (l1, r1)" by (cases "splitAt k off ch")
    from "3.prems" True s have eq: "l = [Element a l1]" "r = Element a r1 # ns" by auto
    show ?thesis unfolding eq using "3.IH"(1)[OF True s] by auto
  next
    case False
    obtain l1 r1 where s: "splitAt (k - length (textNodes ch)) off ns = (l1, r1)"
      by (cases "splitAt (k - length (textNodes ch)) off ns")
    from "3.prems" False s have eq: "l = Element a ch # l1" "r = r1" by auto
    show ?thesis unfolding eq using "3.IH"(2)[OF False s] by auto
  qed
qed

lemma extract_insert_pieces:
  assumes "ks \<le> ke"
    and "ks = ke \<longrightarrow> os \<le> oe \<and> (ks < length (textNodes ns) \<longrightarrow> os \<le> length (textNodes ns ! ks))"
    and "extractContents ks os ke oe ns = (frag, rest, (p, off))"
  shows "\<forall>t'\<in>set (textNodes (insertNode (Element w frag) p off rest)).
           \<exists>t\<in>set (textNodes ns). sublist t' t"
  using assms
proof (induction ks os ke oe ns arbitrary: frag rest p off rule: extractContents.induct)
  case (1 ks os ke oe)
  then show ?case by simp
next
  case (2 ks os ke oe t ns)
  show ?case
  proof (cases "ks = 0")
    case True
    show ?thesis
    proof (cases "ke = 0")
      case ke: True
      with True "2.prems" have o: "os \<le> oe" "os \<le> length t" by auto
      from True ke "2.prems"(3) have eq: "frag = [TextNode (take (oe - os) (drop os t))]"
        "rest = TextNode (take os t @ drop oe t) # ns" "p = [0]" "off = os" by auto
      have a: "sublist (take os t) t" "sublist (drop oe t) t"
        by (simp_all add: prefix_imp_sublist suffix_imp_sublist take_is_prefix suffix_drop)
      have "t = take os t @ take (oe - os) (drop os t) @ drop (oe - os) (drop os t)"
        by (metis append_take_drop_id)
      then have b: "sublist (take (oe - os) (drop os t)) t" by (metis sublist_appendI)
      show ?thesis unfolding eq using a b o by auto
    next
      case False
      obtain l r where lr: "splitAt (ke - 1) oe ns = (l, r)" by (cases "splitAt (ke - 1) oe ns")
      from True False lr "2.prems"(3) have eq: "frag = TextNode (drop os t) # l"
        "rest = TextNode (take os t) # r" "p = []" "off = 1" by auto
      have a: "sublist (take os t) t" "sublist (drop os t) t"
        by (simp_all add: prefix_imp_sublist suffix_imp_sublist take_is_prefix suffix_drop)
      show ?thesis unfolding eq using a splitAt_pieces[OF lr] by (auto simp: textNodes_append)
    qed
  next
    case False
    obtain f1 r1 p1 o1 where e: "extractContents (ks - 1) os (ke - 1) oe ns = (f1, r1, (p1, o1))"
      by (metis prod_cases3 surj_pair)
    obtain p2 o2 where s: "shiftPos (p1, o1) = (p2, o2)" by (cases "shiftPos (p1, o1)")
    have a1: "ks - 1 \<le> ke - 1" using "2.prems"(1) by simp
    have a2: "ks - 1 = ke - 1 \<longrightarrow> os \<le> oe \<and>
        (ks - 1 < length (textNodes ns) \<longrightarrow> os \<le> length (textNodes ns ! (ks - 1)))"
      using "2.prems"(1,2) False by (cases ks; cases ke) auto
    note ih = "2.IH"[OF False a1 a2 e]
    from "2.prems"(3) False e s have
      eq: "frag = f1" "rest = TextNode t # r1" "p = p2" "off = o2" by auto
    show ?thesis unfolding eq insertNode_shiftPos[OF s refl] using ih by auto
  qed
next
  case (3 ks os ke oe a ch ns)
  let ?c = "length (textNodes ch)"
  show ?case
  proof (cases "?c \<le> ks")
    case True
    obtain f1 r1 p1 o1 where e: "extractContents (ks - ?c) os (ke - ?c) oe ns = (f1, r1, (p1, o1))"
      by (metis prod_cases3 surj_pair)
    obtain p2 o2 where s: "shiftPos (p1, o1) = (p2, o2)" by (cases "shiftPos (p1, o1)")
    have a1: "ks - ?c \<le> ke - ?c" using "3.prems"(1) by simp
    have a2: "ks - ?c = ke - ?c \<longrightarrow> os \<le> oe \<and>
        (ks - ?c < length (textNodes ns) \<longrightarrow> os \<le> length (textNodes ns ! (ks - ?c)))"
      using "3.prems"(1,2) True by (auto simp: nth_append)
    note ih = "3.IH"(1)[OF True a1 a2 e]
    from "3.prems"(3) True e s have
      eq: "frag = f1" "rest = Element a ch # r1" "p = p2" "off = o2" by auto
    show ?thesis unfolding eq insertNode_shiftPos[OF s refl] using ih by auto
  next
    case False
    show ?thesis
    proof (cases "ke < ?c")
      case True
      obtain f1 r1 p1 o1 where e: "extractContents ks os ke oe ch = (f1, r1, (p1, o1))"
        by (metis prod_cases3 surj_pair)
      have a2: "ks = ke \<longrightarrow> os \<le> oe \<and>
          (ks < length (textNodes ch) \<longrightarrow> os \<le> length (textNodes ch ! ks))"
        using "3.prems"(2) False by (auto simp: nth_append)
      note ih = "3.IH"(2)[OF False True "3.prems"(1) a2 e]
      from "3.prems"(3) False True e have
        eq: "frag = f1" "rest = Element a r1 # ns" "p = 0 # p1" "off = o1" by auto
      show ?thesis unfolding eq using ih by auto
    next
      case ke: False
      obtain fl fr where f: "splitAt ks os ch = (fl, fr)" by (cases "splitAt ks os ch")
      obtain l r where lr: "splitAt (ke - ?c) oe ns = (l, r)" by (cases "splitAt (ke - ?c) oe ns")
      from "3.prems"(3) False ke f lr have
        eq: "frag = Element a fr # l" "rest = Element a fl # r" "p = []" "off = 1" by auto
      show ?thesis unfolding eq using splitAt_pieces[OF f] splitAt_pieces[OF lr]
        by (auto simp: textNodes_append)
    qed
  qed
qed

lemma wrapRange_pieces:
  assumes "validRange (textNodes root) r"
  shows "\<forall>t'\<in>set (textNodes (wrapRange w r root)). \<exists>t\<in>set (textNodes root). sublist t' t"
proof -
  obtain frag rest p off where
    e: "extractContents (startNode r) (startOff r) (endNode r) (endOff r) root = (frag, rest, (p, off))"
    by (metis prod_cases3 surj_pair)
  have "\<forall>t'\<in>set (textNodes (insertNode (Element w frag) p off rest)).
           \<exists>t\<in>set (textNodes root). sublist t' t"
    using assms by (intro extract_insert_pieces[OF _ _ e]) (auto simp: validRange_def)
  with e show ?thesis by (simp add: wrapRange_eq extractAndInsert_def)
qed

lemma findTextInDOM_None_stable:
  assumes n: "findTextInDOM (Some root) h s = None" and v: "validRange (textNodes root) r"
  shows "findTextInDOM (Some (wrapRange w r root)) h s = None"
proof (rule ccontr)
  let ?new = "wrapRange w r root"
  assume "findTextInDOM (Some ?new) h s \<noteq> None"
  then obtain r' where f: "findTextInDOM (Some ?new) h s = Some r'" by auto
  note p = findTextInDOM_Some[OF f]
  note pc = wrapRange_pieces[OF v, of w]
  have t: "textContent ?new = textContent root" by (rule wrapRange_text[OF v])
  from p have "\<exists>i. occursAt s (textContent ?new) i" by blast
  then have sub: "sublist s (textContent root)" by (simp add: sublist_occursAt t)
  from p have "textNodes ?new \<noteq> []" by (auto simp: validRange_def)
  then obtain t' where "t' \<in> set (textNodes ?new)" by (cases "textNodes ?new") auto
  with pc have ne: "textNodes root \<noteq> []" by fastforce
  have sel: "h \<or> (\<exists>t\<in>set (textNodes root). sublist s t)"
  proof (cases "\<exists>t'\<in>set (textNodes ?new). sublist s t'")
    case True
    then obtain t' where t': "t' \<in> set (textNodes ?new)" "sublist s t'" by blast
    with pc obtain t0 where "t0 \<in> set (textNodes root)" "sublist t' t0" by blast
    with t'(2) show ?thesis using sublist_order.order_trans by blast
  next
    case False
    then have "walker_loop (textNodes ?new) s 0 = None"
      by (simp add: walker_loop_None indexOf_None_iff)
    with f show ?thesis by (auto simp: findTextInDOM_def split: option.splits if_splits)
  qed
  from findTextInDOM_finds[OF sub ne sel] n show False by simp
qed

text \<open>An annotation is settled in a document when applying it changes nothing but the log:
  its id is represented, or its text is not found.\<close>

lemma settled_applyShared:
  assumes c: "container st = Some root"
    and q: "represented (id' b) root \<or> findTextInDOM (Some root) h (originalText b) = None"
  shows "\<exists>root'. container (applyShared h a st) = Some root'
     \<and> (represented (id' b) root' \<or> findTextInDOM (Some root') h (originalText b) = None)"
  using c
proof (cases rule: applyShared_cases[where a = a and h = h])
  case skip
  with c q show ?thesis by auto
next
  case warn
  with c q show ?thesis by auto
next
  case (wrap r)
  from findTextInDOM_Some[OF wrap(2)] have v: "validRange (textNodes root) r" by simp
  show ?thesis using wrap(3) q findTextInDOM_None_stable[OF _ v]
    by (auto simp: represented_wrapRange)
qed

lemma applyShared_settles:
  assumes c: "container st = Some root"
  shows "\<exists>root'. container (applyShared h a st) = Some root'
     \<and> (represented (id' a) root' \<or> findTextInDOM (Some root') h (originalText a) = None)"
  using c
proof (cases rule: applyShared_cases[where a = a and h = h])
  case skip
  with c show ?thesis by auto
next
  case warn
  with c show ?thesis by auto
next
  case (wrap r)
  then show ?thesis by (auto simp: represented_wrapRange)
qed

lemma fold_applyShared_settles:
  assumes "container st = Some root"
    and "\<forall>b\<in>B. represented (id' b) root \<or> findTextInDOM (Some root) h (originalText b) = None"
  shows "\<exists>root'. container (fold (applyShared h) xs st) = Some root'
     \<and> (\<forall>b\<in>B \<union> set xs.
           represented (id' b) root' \<or> findTextInDOM (Some root') h (originalText b) = None)"
  using assms
proof (induction xs arbitrary: st root B)
  case Nil
  then show ?case by simp
next
  case (Cons x xs)
  from applyShared_settles[OF Cons.prems(1), of h x] obtain r1 where r1:
    "container (applyShared h x st) = Some r1"
    "represented (id' x) r1 \<or> findTextInDOM (Some r1) h (originalText x) = None" by blast
  have "\<forall>b\<in>insert x B.
          represented (id' b) r1 \<or> findTextInDOM (Some r1) h (originalText b) = None"
  proof
    fix b assume "b \<in> insert x B"
    then show "represented (id' b) r1 \<or> findTextInDOM (Some r1) h (originalText b) = None"
    proof
      assume "b = x" with r1(2) show ?thesis by simp
    next
      assume "b \<in> B"
      then have
        "represented (id' b) root \<or> findTextInDOM (Some root) h (originalText b) = None"
        using Cons.prems(2) by (rule_tac bspec)
      from settled_applyShared[OF Cons.prems(1) this, of x] r1(1) show ?thesis by simp
    qed
  qed
  from Cons.IH[OF r1(1) this] show ?case by simp
qed

lemma applyShared_settled:
  assumes c: "container st = Some root"
    and q: "represented (id' x) root \<or> findTextInDOM (Some root) h (originalText x) = None"
  shows "container (applyShared h x st) = Some root
     \<and> (applyShared h x st)\<lparr>consoleWarn := []\<rparr> = st\<lparr>consoleWarn := []\<rparr>"
  using c
proof (cases rule: applyShared_cases[where a = x and h = h])
  case skip
  with c show ?thesis by simp
next
  case warn
  with c show ?thesis by simp
next
  case (wrap r)
  with q show ?thesis by simp
qed

lemma fold_applyShared_settled:
  assumes "container st = Some root"
    and "\<forall>b\<in>set xs. represented (id' b) root \<or> findTextInDOM (Some root) h (originalText b) = None"
  shows "(fold (applyShared h) xs st)\<lparr>consoleWarn := []\<rparr> = st\<lparr>consoleWarn := []\<rparr>"
  using assms
proof (induction xs arbitrary: st)
  case Nil
  then show ?case by simp
next
  case (Cons x xs)
  have q: "represented (id' x) root \<or> findTextInDOM (Some root) h (originalText x) = None"
    using Cons.prems(2) by simp
  note 1 = applyShared_settled[OF Cons.prems(1) q]
  have "(fold (applyShared h) xs (applyShared h x st))\<lparr>consoleWarn := []\<rparr>
      = (applyShared h x st)\<lparr>consoleWarn := []\<rparr>"
    using Cons.IH[of "applyShared h x st"] 1 Cons.prems(2) by simp
  with 1 show ?case by simp
qed

subsection \<open>The batch\<close>

lemma fold_applyShared_highlighter:
  "highlighter (fold (applyShared h) xs st) = highlighter st"
  by (induction xs arbitrary: st) (auto simp: applyShared_frame)

lemma fold_applyShared_skips_represented:
  assumes "container st = Some rc" and "\<forall>i. represented i root \<longrightarrow> represented i rc"
  shows "fold (applyShared h) xs st
       = fold (applyShared h) (filter (\<lambda>a. \<not> represented (id' a) root) xs) st"
  using assms
proof (induction xs arbitrary: st rc)
  case Nil
  then show ?case by simp
next
  case (Cons x xs)
  show ?case
  proof (cases "represented (id' x) root")
    case True
    with Cons.prems have "applyShared h x st = st"
      by (intro applyShared_represented[of st rc]) auto
    with True Cons.IH[OF Cons.prems] show ?thesis by simp
  next
    case False
    from applyShared_inv[OF Cons.prems(1), of h x] obtain r1 where r1:
      "container (applyShared h x st) = Some r1"
      "\<forall>i. represented i r1 \<longleftrightarrow>
        represented i rc \<or> (i = id' x \<and> findTextInDOM (Some rc) h (originalText x) \<noteq> None)"
      by blast
    have "\<forall>i. represented i root \<longrightarrow> represented i r1" using r1(2) Cons.prems(2) by blast
    from Cons.IH[OF r1(1) this] False show ?thesis by simp
  qed
qed





text \<open>
  Claim C5. In a batch the annotations whose id is represented, in the library's index or
  by a mark made by hand, are skipped: the batch does what the batch without them does,
  and nothing at all when every id is represented. Applying a batch a second time
  changes nothing but the log: no mark is added and no annotation is registered.
\<close>

theorem applySharedAnnotations_idempotent:
  assumes "container st = Some root" and "highlighter st"
  shows "applySharedAnnotations h anns st
           = applySharedAnnotations h (filter (\<lambda>a. \<not> represented (id' a) root) anns) st
    \<and> ((\<forall>a\<in>set anns. represented (id' a) root) \<longrightarrow> applySharedAnnotations h anns st = st)
    \<and> (applySharedAnnotations h anns (applySharedAnnotations h anns st))\<lparr>consoleWarn := []\<rparr>
        = (applySharedAnnotations h anns st)\<lparr>consoleWarn := []\<rparr>"
proof -
  have u: "\<And>zs. applySharedAnnotations h zs st = fold (applyShared h) zs st"
    using assms by (simp add: applySharedAnnotations_def)
  have 1: "fold (applyShared h) anns st
         = fold (applyShared h) (filter (\<lambda>a. \<not> represented (id' a) root) anns) st"
    by (rule fold_applyShared_skips_represented[OF assms(1)]) simp
  have 2: "(\<forall>a\<in>set anns. represented (id' a) root) \<longrightarrow> fold (applyShared h) anns st = st"
  proof
    assume "\<forall>a\<in>set anns. represented (id' a) root"
    then have "filter (\<lambda>a. \<not> represented (id' a) root) anns = []" by (simp add: filter_empty_conv)
    with 1 show "fold (applyShared h) anns st = st" by simp
  qed
  let ?t = "fold (applyShared h) anns st"
  from fold_applyShared_settles[OF assms(1), of "{}" h anns] obtain r1 where r1:
    "container ?t = Some r1"
    "\<forall>b\<in>set anns. represented (id' b) r1 \<or> findTextInDOM (Some r1) h (originalText b) = None"
    by auto
  have ht: "highlighter ?t" using assms(2) by (simp add: fold_applyShared_highlighter)
  have "applySharedAnnotations h anns ?t = fold (applyShared h) anns ?t"
    using ht r1(1) by (simp add: applySharedAnnotations_def)
  with fold_applyShared_settled[OF r1]
  have 3: "(applySharedAnnotations h anns ?t)\<lparr>consoleWarn := []\<rparr> = ?t\<lparr>consoleWarn := []\<rparr>"
    by simp
  show ?thesis unfolding u using 1 2 3 by blast
qed

theorem applySharedAnnotations_idempotent_witness:
  "(applySharedAnnotations True [shared ''s1'' DELETION ''AB is'', shared ''s2'' COMMENT ''gone'']
      (applySharedAnnotations True
         [shared ''s1'' DELETION ''AB is'', shared ''s2'' COMMENT ''gone''] viewer0))
     \<lparr>consoleWarn := []\<rparr>
   = (applySharedAnnotations True
        [shared ''s1'' DELETION ''AB is'', shared ''s2'' COMMENT ''gone''] viewer0)
     \<lparr>consoleWarn := []\<rparr>"
proof -
  have 1: "container viewer0 = Some doc_repeated" "highlighter viewer0"
    by (simp_all add: viewer0_def)
  show ?thesis using applySharedAnnotations_idempotent[OF 1] by blast
qed

section \<open>No handler changes the text of the document\<close>




















section \<open>Removing highlights\<close>











section \<open>Creating annotations\<close>

lemma hasHighlightId_classListAdd [simp]:
  "hasHighlightId i (classListAdd c a) = hasHighlightId i a"
  by (simp add: hasHighlightId_def classListAdd_def)

lemma getDoms_addClass:
  "getDoms i (addClass c j ns)
     = map (\<lambda>a. if hasHighlightId j a then classListAdd c a else a) (getDoms i ns)"
  unfolding getDoms_def by (induction ns rule: textNodes.induct) auto


lemma querySelectorAll_mem:
  "a \<in> set (querySelectorAll P ns) \<longleftrightarrow> a \<in> set (querySelectorAll (\<lambda>_. True) ns) \<and> P a"
  by (induction ns rule: textNodes.induct) auto

lemma getIdentity_author:
  "fst (getIdentity fresh ls)
     = (case ls of Available (Some stored) \<Rightarrow> if stored \<noteq> [] then stored else fresh
        | _ \<Rightarrow> fresh)"
  by (simp add: getIdentity_def split: localStorage.splits option.splits)

lemma createAnnotationFromSource_added:
  "\<exists>a. added (createAnnotationFromSource now fresh src ty txt st) = added st @ [a]
     \<and> id' a = sourceId src \<and> type' a = ty \<and> text' a = txt
     \<and> originalText a = sourceText src \<and> createdA a = now
     \<and> author a = fst (getIdentity fresh (storage st))
     \<and> endOffset a = startOffset a + length (sourceText src)
     \<and> startMeta a = Some (sourceStartMeta src) \<and> endMeta a = Some (sourceEndMeta src)"
  by (simp add: createAnnotationFromSource_def Let_def split: prod.splits)

lemma createAnnotationFromSource_frame:
  "container (createAnnotationFromSource now fresh src ty txt st)
     = map_option (addClass (typeClass ty) (sourceId src)) (container st)
   \<and> storage (createAnnotationFromSource now fresh src ty txt st)
     = snd (getIdentity fresh (storage st))
   \<and> pendingSourceRef (createAnnotationFromSource now fresh src ty txt st) = pendingSourceRef st
   \<and> toolbarState (createAnnotationFromSource now fresh src ty txt st) = toolbarState st
   \<and> highlighter (createAnnotationFromSource now fresh src ty txt st) = highlighter st"
  by (simp add: createAnnotationFromSource_def Let_def split: prod.splits)

lemma createAnnotationFromSource_cong:
  "container s = container t \<Longrightarrow> storage s = storage t \<Longrightarrow> added s = added t
   \<Longrightarrow> added (createAnnotationFromSource now fresh src ty txt s)
       = added (createAnnotationFromSource now fresh src ty txt t)
     \<and> container (createAnnotationFromSource now fresh src ty txt s)
       = container (createAnnotationFromSource now fresh src ty txt t)"
  by (simp add: createAnnotationFromSource_def Let_def split: prod.splits)

text \<open>The state after the listener has dropped the pending highlight, if there is one.\<close>

lemma onCreate_unfold:
  assumes "container st = Some root" and "getDoms (sourceId src) root \<noteq> []"
  shows "\<exists>st1. container st1
            = Some (case pendingSourceRef st of
                      Some pending \<Rightarrow> highlighterRemove (sourceId pending) root
                    | None \<Rightarrow> root)
     \<and> pendingSourceRef st1 = None \<and> toolbarState st1 = toolbarState st
     \<and> added st1 = added st \<and> storage st1 = storage st \<and> highlighter st1 = highlighter st
     \<and> onCreate now fresh (src # rest) st
         = (if modeRef st = Redline
            then createAnnotationFromSource now fresh src DELETION None st1
            else st1\<lparr>pendingSourceRef := Some src, toolbarState := Some src\<rparr>)"
proof (cases "pendingSourceRef st")
  case None
  with assms show ?thesis by (intro exI[of _ st]) (simp add: onCreate_def)
next
  case (Some pending)
  with assms show ?thesis
    by (intro exI[of _ "st\<lparr>container := Some (highlighterRemove (sourceId pending) root),
                          pendingSourceRef := None\<rparr>"])
       (simp add: onCreate_def)
qed



text \<open>
  Claim C7. In the redline mode, when the library reports a selection whose marks are in
  the document, the listener commits it at once: one annotation is handed to
  \<^verbatim>\<open>onAddAnnotation\<close>, a deletion without comment for the reported source, created now and
  signed with the identity. The selection is never pending and no toolbar is opened for
  it; its marks carry the class \<^verbatim>\<open>deletion\<close>. The annotations handed on and the document
  are the ones the explicit way gives: the same event in the selection mode, followed by
  the toolbar action \<^verbatim>\<open>delete\<close> at the same time.
\<close>

theorem redline_commits_immediately:
  assumes "container st = Some root" and "getDoms (sourceId src) root \<noteq> []"
    and "modeRef st = Redline" and "highlighter st"
  shows "(\<exists>a. added (onCreate now fresh (src # rest) st) = added st @ [a]
           \<and> type' a = DELETION \<and> text' a = None \<and> id' a = sourceId src
           \<and> originalText a = sourceText src \<and> createdA a = now
           \<and> author a = fst (getIdentity fresh (storage st)))
    \<and> pendingSourceRef (onCreate now fresh (src # rest) st) = None
    \<and> toolbarState (onCreate now fresh (src # rest) st) = toolbarState st
    \<and> (\<exists>root'. container (onCreate now fresh (src # rest) st) = Some root'
           \<and> (\<forall>m\<in>set (getDoms (sourceId src) root'). hasClass ''deletion'' m))
    \<and> added (onCreate now fresh (src # rest) st)
        = added (handleAnnotate now fresh DELETION None
                   (onCreate now fresh (src # rest) (st\<lparr>modeRef := Selection\<rparr>)))
    \<and> container (onCreate now fresh (src # rest) st)
        = container (handleAnnotate now fresh DELETION None
                       (onCreate now fresh (src # rest) (st\<lparr>modeRef := Selection\<rparr>)))"
proof -
  let ?s' = "onCreate now fresh (src # rest) st"
  let ?sel = "st\<lparr>modeRef := Selection\<rparr>"
  from onCreate_unfold[OF assms(1,2), of now fresh rest] assms(3) obtain st1 where st1:
    "container st1
       = Some (case pendingSourceRef st of
                 Some pending \<Rightarrow> highlighterRemove (sourceId pending) root | None \<Rightarrow> root)"
    "pendingSourceRef st1 = None" "toolbarState st1 = toolbarState st"
    "added st1 = added st" "storage st1 = storage st"
    "?s' = createAnnotationFromSource now fresh src DELETION None st1"
    by auto
  have c': "container ?sel = Some root" using assms(1) by simp
  from onCreate_unfold[OF c' assms(2), of now fresh rest] obtain st2 where st2:
    "container st2
       = Some (case pendingSourceRef st of
                 Some pending \<Rightarrow> highlighterRemove (sourceId pending) root | None \<Rightarrow> root)"
    "added st2 = added st" "storage st2 = storage st" "highlighter st2 = highlighter st"
    "onCreate now fresh (src # rest) ?sel
       = st2\<lparr>pendingSourceRef := Some src, toolbarState := Some src\<rparr>"
    by auto
  let ?x = "st2\<lparr>pendingSourceRef := Some src, toolbarState := Some src\<rparr>"
  from createAnnotationFromSource_added[of now fresh src DELETION None st1] st1
  have 1: "\<exists>a. added ?s' = added st @ [a]
           \<and> type' a = DELETION \<and> text' a = None \<and> id' a = sourceId src
           \<and> originalText a = sourceText src \<and> createdA a = now
           \<and> author a = fst (getIdentity fresh (storage st))"
    by auto
  have 2: "pendingSourceRef ?s' = None" "toolbarState ?s' = toolbarState st"
    using st1 by (simp_all add: createAnnotationFromSource_frame)
  obtain r1 where r1: "container st1 = Some r1" using st1(1) by simp
  have cs: "container ?s' = Some (addClass ''deletion'' (sourceId src) r1)"
    using st1(6) r1 by (simp add: createAnnotationFromSource_frame typeClass_def)
  have "\<forall>m\<in>set (getDoms (sourceId src) (addClass ''deletion'' (sourceId src) r1)).
          hasClass ''deletion'' m"
  proof
    fix m assume "m \<in> set (getDoms (sourceId src) (addClass ''deletion'' (sourceId src) r1))"
    then obtain a where a: "a \<in> set (getDoms (sourceId src) r1)"
      "m = (if hasHighlightId (sourceId src) a then classListAdd ''deletion'' a else a)"
      by (auto simp: getDoms_addClass)
    from a(1) have "hasHighlightId (sourceId src) a"
      using querySelectorAll_mem[of a "hasHighlightId (sourceId src)" r1] by (simp add: getDoms_def)
    with a(2) show "hasClass ''deletion'' m" by (simp add: hasClass_def classListAdd_def)
  qed
  with cs have 3: "\<exists>root'. container ?s' = Some root'
           \<and> (\<forall>m\<in>set (getDoms (sourceId src) root'). hasClass ''deletion'' m)" by simp
  have h: "handleAnnotate now fresh DELETION None ?x
      = (createAnnotationFromSource now fresh src DELETION None ?x)
          \<lparr>pendingSourceRef := None, toolbarState := None\<rparr>"
    using assms(4) st2(4) by (simp add: handleAnnotate_def)
  have "container st1 = container ?x" "storage st1 = storage ?x" "added st1 = added ?x"
    using st1 st2 by simp_all
  from createAnnotationFromSource_cong[OF this, of now fresh src DELETION None]
  have 4: "added ?s' = added (handleAnnotate now fresh DELETION None
                   (onCreate now fresh (src # rest) ?sel))"
    "container ?s' = container (handleAnnotate now fresh DELETION None
                   (onCreate now fresh (src # rest) ?sel))"
    unfolding st1(6) st2(5) h by simp_all
  show ?thesis using 1 2 3 4 by simp
qed

theorem redline_commits_immediately_witness:
  "(\<exists>a. added (onCreate 42 ''swift-falcon-tater'' [selection ''hB'' ''brown'']
                 (viewer_fox\<lparr>pendingSourceRef := None, toolbarState := None,
                             modeRef := Redline\<rparr>)) = [a]
        \<and> type' a = DELETION \<and> id' a = ''hB'' \<and> originalText a = ''brown'')
   \<and> pendingSourceRef (onCreate 42 ''swift-falcon-tater'' [selection ''hB'' ''brown'']
                 (viewer_fox\<lparr>pendingSourceRef := None, toolbarState := None,
                             modeRef := Redline\<rparr>)) = None
   \<and> toolbarState (onCreate 42 ''swift-falcon-tater'' [selection ''hB'' ''brown'']
                 (viewer_fox\<lparr>pendingSourceRef := None, toolbarState := None,
                             modeRef := Redline\<rparr>)) = None"
proof -
  let ?B = "selection ''hB'' ''brown''"
  let ?st = "viewer_fox\<lparr>pendingSourceRef := None, toolbarState := None, modeRef := Redline\<rparr>"
  have c: "container ?st = Some doc_fox" "modeRef ?st = Redline" "highlighter ?st"
    "added ?st = []" "toolbarState ?st = None"
    by (simp_all add: viewer_fox_def viewer0_def)
  have g: "getDoms (sourceId ?B) doc_fox \<noteq> []"
    by (simp add: getDoms_def doc_fox_def selection_def hasHighlightId_def libraryMark_def
        plain_def)
  have ids: "sourceId ?B = ''hB''" "sourceText ?B = ''brown''" by (simp_all add: selection_def)
  note th = redline_commits_immediately[OF c(1) g c(2,3), of 42 "''swift-falcon-tater''" "[]",
      unfolded ids c(4,5)]
  from th show ?thesis by auto
qed













end
